theory Spec2Isabelle
  imports Main "HOL-Library.Word"
begin

section \<open>Ledger ingestion scheduler (ingest/system.go)\<close>

text \<open>
  A shallow embedding of the ingestion scheduler: \<open>Tick\<close>, \<open>newTickSession\<close>,
  \<open>runOnce\<close>, \<open>validateLedgerChain\<close> and the reingestion entry points
  \<open>ReingestAll\<close>, \<open>ReingestOutdated\<close>, \<open>ReingestRange\<close>, \<open>ReingestSingle\<close>.

  Go's \<open>int32\<close> is a 32-bit word read as two's complement (\<open>sint\<close>); \<open>+\<close> and \<open>-\<close>
  wrap around. Go's \<open>int\<close> is taken at its 64-bit width.
\<close>

subsection \<open>Data model\<close>

type_synonym int32 = "32 word"
type_synonym go_int = "64 word"

text \<open>The non-nil value carried by a Go panic.\<close>

type_synonym panic_value = string

text \<open>
  Error values. \<open>Opaque\<close> stands for an error produced by a collaborator (a query or a
  session); \<open>Wrap\<close> and \<open>New\<close> are the two constructors of \<open>github.com/pkg/errors\<close> that
  \<open>validateLedgerChain\<close> uses; \<open>FromPanic\<close> is \<open>errors.FromPanic\<close>.
\<close>

datatype error =
    Opaque string
  | Wrap error string
  | New string
  | FromPanic panic_value

text \<open>A call of Go code either returns a value or panics.\<close>

datatype 'a outcome = Returns 'a | Panics panic_value

record LedgerState =
  CoreElder :: int32
  CoreLatest :: int32
  HistoryLatest :: int32

record LedgerHeader =
  Sequence :: int32
  LedgerHash :: string
  PrevHash :: string

record Cursor =
  FirstLedger :: int32
  LastLedger :: int32

record Session =
  Cursor :: Cursor
  ClearExisting :: bool
  Ingested :: go_int
  Err :: "error option"

text \<open>
  The scheduler's own state: the \<open>current\<close> slot and the mutex \<open>lock\<close> that guards it
  (\<open>locked\<close> tells whether the mutex is held).
\<close>

record System =
  current :: "Session option"
  locked :: bool

datatype log_event =
    LogAlreadyInProgress
  | LogNilCurrent
  | LogHistoryEmpty int32
  | LogLedgerGap int32 error
  | LogSessionFailed error
  | LogSessionPanicked error
  | LogOutdated int32 nat

text \<open>
  Everything outside the scheduler. \<open>store\<close> is the state of the collaborators (the core
  and history databases and the cached ledger state), of a type the scheduler knows nothing
  about. \<open>logs\<close> and \<open>sentry\<close> receive what the scheduler emits. The three journals record
  every invocation of \<open>ReingestRange\<close>, \<open>validateLedgerChain\<close> and \<open>Session.Run\<close> with its
  arguments, so that statements about which calls are made can be written down; nothing in
  the program reads them.
\<close>

record 'w world =
  store :: 'w
  logs :: "log_event list"
  sentry :: "error list"
  reingest_calls :: "(int32 \<times> int32) list"
  validate_calls :: "int32 list"
  run_calls :: "Session list"

text \<open>
  The collaborators whose code lies outside \<open>system.go\<close>, taken as parameters. Each acts
  on the store; each may panic. \<open>Run\<close> mutates the session it is called on, so it yields
  the session as it stands when the call ends, also when it ends by a panic.
  \<open>CurrentVersion\<close> is the constant passed to the outdated-ledger query.
\<close>

record 'w env =
  CurrentState :: "'w \<Rightarrow> LedgerState outcome \<times> 'w"
  LedgerHeaderBySequence :: "int32 \<Rightarrow> 'w \<Rightarrow> (error + LedgerHeader) outcome \<times> 'w"
  OldestOutdatedLedgers :: "int \<Rightarrow> 'w \<Rightarrow> (error + int32 list) outcome \<times> 'w"
  Run :: "Session \<Rightarrow> 'w \<Rightarrow> unit outcome \<times> Session \<times> 'w"
  CurrentVersion :: int

text \<open>A collaborator's call, lifted from the store to the world.\<close>

definition call :: "('w \<Rightarrow> 'a \<times> 'w) \<Rightarrow> 'w world \<Rightarrow> 'a \<times> 'w world" where
  "call f w = (case f (store w) of (r, s') \<Rightarrow> (r, w\<lparr>store := s'\<rparr>))"

definition log_emit :: "log_event \<Rightarrow> 'w world \<Rightarrow> 'w world" where
  "log_emit ev w = w\<lparr>logs := logs w @ [ev]\<rparr>"

text \<open>
  Modelled from the spec: \<open>NewSession\<close>, the constructor of \<open>Session\<close>, is defined in the
  package's session file, which is not among the sources. The spec describes a Session as
  \<open>{FirstLedger, LastLedger, ClearExisting, Ingested, Err}\<close>, created per run over the
  closed range \<open>[start, end]\<close>, and says that the session \<open>Tick\<close> installs has
  clear-existing = false; so the constructor stores the two bounds and leaves every other
  field at its zero value. The scheduler it receives as third argument is kept by
  reference only and does not show in the value.
\<close>

definition NewSession :: "int32 \<Rightarrow> int32 \<Rightarrow> Session" where
  "NewSession start end =
     \<lparr>Cursor = \<lparr>FirstLedger = start, LastLedger = end\<rparr>,
      ClearExisting = False, Ingested = 0, Err = None\<rparr>"

subsection \<open>validateLedgerChain\<close>

definition validateLedgerChain ::
  "'w env \<Rightarrow> int32 \<Rightarrow> 'w world \<Rightarrow> error option outcome \<times> 'w world" where
  "validateLedgerChain E seq w0 =
     (let w = w0\<lparr>validate_calls := validate_calls w0 @ [seq]\<rparr> in
      case call (LedgerHeaderBySequence E seq) w of
        (Panics p, w1) \<Rightarrow> (Panics p, w1)
      | (Returns (Inl err), w1) \<Rightarrow>
          (Returns (Some (Wrap err ''validateLedgerChain: failed to load cur ledger'')), w1)
      | (Returns (Inr cur), w1) \<Rightarrow>
          (case call (LedgerHeaderBySequence E (seq - 1)) w1 of
             (Panics p, w2) \<Rightarrow> (Panics p, w2)
           | (Returns (Inl err), w2) \<Rightarrow>
               (Returns (Some (Wrap err ''validateLedgerChain: failed to load prev ledger'')), w2)
           | (Returns (Inr prev), w2) \<Rightarrow>
               if PrevHash cur \<noteq> LedgerHash prev
               then (Returns (Some (New ''cur and prev ledger hashes don't match'')), w2)
               else (Returns None, w2)))"

subsection \<open>ReingestRange, ReingestAll, ReingestSingle\<close>

text \<open>\<open>is.Run()\<close>: the journal entry, then the collaborator.\<close>

definition Session_Run ::
  "'w env \<Rightarrow> Session \<Rightarrow> 'w world \<Rightarrow> unit outcome \<times> Session \<times> 'w world" where
  "Session_Run E is w0 =
     (let w = w0\<lparr>run_calls := run_calls w0 @ [is]\<rparr> in
      case Run E is (store w) of (r, is', s') \<Rightarrow> (r, is', w\<lparr>store := s'\<rparr>))"

text \<open>
  The reingestion entry points are methods of the scheduler, so the model hands them the
  scheduler's state and gets it back. A panic inside \<open>Run\<close> is not recovered here: it
  reaches the caller.
\<close>

definition ReingestRange ::
  "'w env \<Rightarrow> int32 \<Rightarrow> int32 \<Rightarrow> System \<Rightarrow> 'w world
     \<Rightarrow> (go_int \<times> error option) outcome \<times> System \<times> 'w world" where
  "ReingestRange E start end i w0 =
     (let w = w0\<lparr>reingest_calls := reingest_calls w0 @ [(start, end)]\<rparr>;
          is = (NewSession start end)\<lparr>ClearExisting := True\<rparr>
      in case Session_Run E is w of
           (Panics p, is', w') \<Rightarrow> (Panics p, i, w')
         | (Returns u, is', w') \<Rightarrow> (Returns (Ingested is', Err is'), i, w'))"

definition ReingestAll ::
  "'w env \<Rightarrow> System \<Rightarrow> 'w world \<Rightarrow> (go_int \<times> error option) outcome \<times> System \<times> 'w world" where
  "ReingestAll E i w =
     (case call (CurrentState E) w of
        (Panics p, w1) \<Rightarrow> (Panics p, i, w1)
      | (Returns ls, w1) \<Rightarrow> ReingestRange E (CoreElder ls) (CoreLatest ls) i w1)"

definition ReingestSingle ::
  "'w env \<Rightarrow> int32 \<Rightarrow> System \<Rightarrow> 'w world \<Rightarrow> error option outcome \<times> System \<times> 'w world" where
  "ReingestSingle E sequence i w =
     (case ReingestRange E sequence sequence i w of
        (Panics p, i', w') \<Rightarrow> (Panics p, i', w')
      | (Returns (n, err), i', w') \<Rightarrow> (Returns err, i', w'))"

subsection \<open>Tick, newTickSession, runOnce\<close>

text \<open>
  \<open>i.lock.Lock()\<close> on a mutex that is held never returns when nothing else runs: the
  value \<open>None\<close>. A function that takes the lock therefore yields an option, \<open>None\<close> for
  a call that never returns.
\<close>

definition Lock :: "System \<Rightarrow> System option" where
  "Lock i = (if locked i then None else Some (i\<lparr>locked := True\<rparr>))"

definition Unlock :: "System \<Rightarrow> System" where
  "Unlock i = i\<lparr>locked := False\<rparr>"

definition newTickSession :: "'w env \<Rightarrow> 'w world \<Rightarrow> Session outcome \<times> 'w world" where
  "newTickSession E w =
     (case call (CurrentState E) w of
        (Panics p, w1) \<Rightarrow> (Panics p, w1)
      | (Returns ls, w1) \<Rightarrow>
          (let start = (if HistoryLatest ls = 0 then CoreElder ls else HistoryLatest ls + 1);
               end = CoreLatest ls
           in (Returns (NewSession start end), w1)))"

text \<open>
  Step 3 of \<open>runOnce\<close> (lines 189 to 193): \<open>is.Run()\<close>, then the log line when the
  session has an error.
\<close>

definition runOnce_run ::
  "'w env \<Rightarrow> Session \<Rightarrow> 'w world \<Rightarrow> unit outcome \<times> Session \<times> 'w world" where
  "runOnce_run E is w =
     (case Session_Run E is w of
        (Panics p, is', w') \<Rightarrow> (Panics p, is', w')
      | (Returns u, is', w') \<Rightarrow>
          (case Err is' of
             Some err \<Rightarrow> (Returns (), is', log_emit (LogSessionFailed err) w')
           | None \<Rightarrow> (Returns (), is', w')))"

text \<open>
  The part of \<open>runOnce\<close> that follows the registration of the release (lines 161 to 195,
  from the nil check to the end), on the ledger state \<open>ls\<close> read at the top and the
  stashed session. It yields how it ended, the session object as it stands then, and the
  world.
\<close>

definition runOnce_body ::
  "'w env \<Rightarrow> LedgerState \<Rightarrow> Session option \<Rightarrow> 'w world
     \<Rightarrow> unit outcome \<times> Session option \<times> 'w world" where
  "runOnce_body E ls cur w =
     (case cur of
        None \<Rightarrow> (Returns (), None, log_emit LogNilCurrent w)
      | Some is \<Rightarrow>
          if sint (LastLedger (Cursor is)) < sint (FirstLedger (Cursor is))
          then (Returns (), Some is, w)
          else
            let w1 = (if HistoryLatest ls = 0
                      then log_emit (LogHistoryEmpty (FirstLedger (Cursor is))) w else w)
            in if FirstLedger (Cursor is) \<noteq> CoreElder ls
               then (case validateLedgerChain E (FirstLedger (Cursor is)) w1 of
                       (Panics p, w2) \<Rightarrow> (Panics p, Some is, w2)
                     | (Returns (Some err), w2) \<Rightarrow>
                         (Returns (), Some is,
                          log_emit (LogLedgerGap (FirstLedger (Cursor is)) err) w2)
                     | (Returns None, w2) \<Rightarrow>
                         (case runOnce_run E is w2 of (r, is', w3) \<Rightarrow> (r, Some is', w3)))
               else (case runOnce_run E is w1 of (r, is', w3) \<Rightarrow> (r, Some is', w3)))"

text \<open>The first deferred function of \<open>runOnce\<close>: recover, log, report.\<close>

definition recovered :: "unit outcome \<Rightarrow> 'w world \<Rightarrow> 'w world" where
  "recovered r w =
     (case r of
        Returns u \<Rightarrow> w
      | Panics rec \<Rightarrow>
          (let err = FromPanic rec
           in (log_emit (LogSessionPanicked err) w)\<lparr>sentry := sentry w @ [err]\<rparr>))"

text \<open>
  \<open>runOnce\<close>. The recovering function is deferred first, so it runs last and sees every
  panic. The releasing function is deferred only after the ledger state has been read and
  the current session stashed; when it runs it takes the lock again. The result carries
  the session object the stash pointed to, as the run left it (\<open>None\<close> when nothing was
  stashed).
\<close>

definition runOnce ::
  "'w env \<Rightarrow> System \<Rightarrow> 'w world \<Rightarrow> (Session option \<times> System \<times> 'w world) option" where
  "runOnce E i w =
     (case call (CurrentState E) w of
        (Panics rec, w1) \<Rightarrow> Some (None, i, recovered (Panics rec) w1)
      | (Returns ls, w1) \<Rightarrow>
          (case Lock i of
             None \<Rightarrow> None
           | Some i1 \<Rightarrow>
               (let is = current i1;
                    i2 = Unlock i1
                in case runOnce_body E ls is w1 of
                     (r, is', w2) \<Rightarrow>
                       (case Lock i2 of
                          None \<Rightarrow> None
                        | Some i3 \<Rightarrow>
                            Some (is', Unlock (i3\<lparr>current := None\<rparr>), recovered r w2)))))"

text \<open>
  \<open>Tick\<close>. The pointer it returns is the one it installed, so the value returned is the
  session object as \<open>runOnce\<close> left it. A panic of \<open>newTickSession\<close> is not recovered and
  leaves the lock held.
\<close>

definition Tick ::
  "'w env \<Rightarrow> System \<Rightarrow> 'w world \<Rightarrow> (Session option outcome \<times> System \<times> 'w world) option" where
  "Tick E i w =
     (case Lock i of
        None \<Rightarrow> None
      | Some i1 \<Rightarrow>
          if current i1 \<noteq> None
          then Some (Returns None, Unlock i1, log_emit LogAlreadyInProgress w)
          else
            (case newTickSession E w of
               (Panics p, w1) \<Rightarrow> Some (Panics p, i1, w1)
             | (Returns is, w1) \<Rightarrow>
                 (let i2 = Unlock (i1\<lparr>current := Some is\<rparr>)
                  in case runOnce E i2 w1 of
                       None \<Rightarrow> None
                     | Some (is', i3, w2) \<Rightarrow>
                         Some (Returns (case is' of None \<Rightarrow> Some is | Some s \<Rightarrow> Some s),
                               i3, w2))))"

subsection \<open>ReingestOutdated\<close>

text \<open>
  The closure \<open>flush\<close>, with the variables it captures (\<open>start\<close>, \<open>end\<close> and the named
  result \<open>n\<close>) as arguments. It yields the error it returns and the new \<open>n\<close>.
\<close>

definition flush ::
  "'w env \<Rightarrow> int32 \<Rightarrow> int32 \<Rightarrow> go_int \<Rightarrow> System \<Rightarrow> 'w world
     \<Rightarrow> error option outcome \<times> go_int \<times> System \<times> 'w world" where
  "flush E start end n i w =
     (case ReingestRange E start end i w of
        (Panics p, i', w') \<Rightarrow> (Panics p, n, i', w')
      | (Returns (ingested, Some ferr), i', w') \<Rightarrow> (Returns (Some ferr), n, i', w')
      | (Returns (ingested, None), i', w') \<Rightarrow> (Returns None, n + ingested, i', w'))"

text \<open>
  The loop \<open>for idx := range outdated\<close>, on the elements still to visit. \<open>Returns None\<close>
  says the loop ran to its end, \<open>Returns (Some err)\<close> that \<open>ReingestOutdated\<close> returned
  from inside it with that error.
\<close>

fun range_loop ::
  "'w env \<Rightarrow> int32 list \<Rightarrow> int32 \<Rightarrow> int32 \<Rightarrow> go_int \<Rightarrow> System \<Rightarrow> 'w world
     \<Rightarrow> error option outcome \<times> (int32 \<times> int32) \<times> go_int \<times> System \<times> 'w world" where
  "range_loop E [] start end n i w = (Returns None, (start, end), n, i, w)"
| "range_loop E (seq # rest) start end n i w =
     (if start = 0 then range_loop E rest seq seq n i w
      else if seq = end + 1 then range_loop E rest start seq n i w
      else (case flush E start end n i w of
              (Panics p, n', i', w') \<Rightarrow> (Panics p, (start, end), n', i', w')
            | (Returns (Some err), n', i', w') \<Rightarrow> (Returns (Some err), (start, end), n', i', w')
            | (Returns None, n', i', w') \<Rightarrow> range_loop E rest seq seq n' i' w'))"

text \<open>
  One pass of the outer loop on a non-empty query result: the log line, the scan from
  \<open>start = end = 0\<close>, the final flush.
\<close>

definition drain ::
  "'w env \<Rightarrow> int32 \<Rightarrow> int32 list \<Rightarrow> go_int \<Rightarrow> System \<Rightarrow> 'w world
     \<Rightarrow> error option outcome \<times> go_int \<times> System \<times> 'w world" where
  "drain E lowest outdated n i w =
     (case range_loop E outdated 0 0 n i
             (log_emit (LogOutdated lowest (length outdated)) w) of
        (Panics p, se, n1, i1, w1) \<Rightarrow> (Panics p, n1, i1, w1)
      | (Returns (Some err), se, n1, i1, w1) \<Rightarrow> (Returns (Some err), n1, i1, w1)
      | (Returns None, (start, end), n1, i1, w1) \<Rightarrow> flush E start end n1 i1 w1)"

text \<open>
  The outer \<open>for\<close> has no exit condition of its own, so it is a partial function: \<open>None\<close>
  is a call that never returns.
\<close>

partial_function (option) ReingestOutdated_loop ::
  "'w env \<Rightarrow> go_int \<Rightarrow> System \<Rightarrow> 'w world
     \<Rightarrow> ((go_int \<times> error option) outcome \<times> System \<times> 'w world) option" where
  "ReingestOutdated_loop E n i w =
     (case call (OldestOutdatedLedgers E (CurrentVersion E)) w of
        (Panics p, w1) \<Rightarrow> Some (Panics p, i, w1)
      | (Returns (Inl err), w1) \<Rightarrow> Some (Returns (n, Some err), i, w1)
      | (Returns (Inr outdated), w1) \<Rightarrow>
          (case outdated of
             [] \<Rightarrow> Some (Returns (n, None), i, w1)
           | lowest # rest \<Rightarrow>
               (case drain E lowest outdated n i w1 of
                  (Panics p, n', i', w2) \<Rightarrow> Some (Panics p, i', w2)
                | (Returns (Some err), n', i', w2) \<Rightarrow> Some (Returns (n', Some err), i', w2)
                | (Returns None, n', i', w2) \<Rightarrow> ReingestOutdated_loop E n' i' w2)))"

definition ReingestOutdated ::
  "'w env \<Rightarrow> System \<Rightarrow> 'w world
     \<Rightarrow> ((go_int \<times> error option) outcome \<times> System \<times> 'w world) option" where
  "ReingestOutdated E i w = ReingestOutdated_loop E 0 i w"

subsection \<open>The RangeCoalescer of the specification\<close>

text \<open>
  The specification's words for the coalescing, as a function of their own, to compare the
  program with: scan once, left to right, accumulating a \<open>[start, end]\<close> run; extend the
  run while the next value equals \<open>end + 1\<close>; otherwise flush the run and begin a new run
  at that value; flush the final run unconditionally. \<open>extend_run s e xs\<close> is the scan
  with the run \<open>[s, e]\<close> open and \<open>xs\<close> still to read.
\<close>

fun extend_run :: "int32 \<Rightarrow> int32 \<Rightarrow> int32 list \<Rightarrow> (int32 \<times> int32) list" where
  "extend_run s e [] = [(s, e)]"
| "extend_run s e (x # xs) =
     (if x = e + 1 then extend_run s x xs else (s, e) # extend_run x x xs)"

fun RangeCoalescer :: "int32 list \<Rightarrow> (int32 \<times> int32) list" where
  "RangeCoalescer [] = []"
| "RangeCoalescer (x # xs) = extend_run x x xs"

text \<open>
  What "the minimal list of maximal contiguous runs whose union is the input" means.
  \<open>span (s, e)\<close> lists the sequence numbers of the closed range \<open>[s, e]\<close>, empty when
  \<open>e < s\<close>. \<open>gapped rs\<close> says that no run of \<open>rs\<close> is continued by the next one.
  \<open>breaks xs\<close> counts the places where \<open>xs\<close> does not step by one.
\<close>

definition span :: "int32 \<times> int32 \<Rightarrow> int32 list" where
  "span r = map word_of_int [sint (fst r)..sint (snd r)]"

fun gapped :: "(int32 \<times> int32) list \<Rightarrow> bool" where
  "gapped (r1 # r2 # rs) = (fst r2 \<noteq> snd r1 + 1 \<and> gapped (r2 # rs))"
| "gapped rs = True"

fun breaks :: "int32 list \<Rightarrow> nat" where
  "breaks (a # b # xs) = (if b = a + 1 then 0 else 1) + breaks (b # xs)"
| "breaks xs = 0"

text \<open>Ascending and without duplicates, in the signed order of \<open>int32\<close>.\<close>

definition ascending :: "int32 list \<Rightarrow> bool" where
  "ascending xs = sorted_wrt (\<lambda>a b. sint a < sint b) xs"

text \<open>
  \<open>drain_passes E k\<close> is \<open>k\<close> passes of the outer loop of \<open>ReingestOutdated\<close>, each on a
  non-empty query result and each ending without error: the state the loop is in after
  them, \<open>None\<close> when some pass among them does not go that way.
\<close>

fun drain_passes ::
  "'w env \<Rightarrow> nat \<Rightarrow> go_int \<Rightarrow> System \<Rightarrow> 'w world \<Rightarrow> (go_int \<times> System \<times> 'w world) option" where
  "drain_passes E 0 n i w = Some (n, i, w)"
| "drain_passes E (Suc k) n i w =
     (case call (OldestOutdatedLedgers E (CurrentVersion E)) w of
        (Returns (Inr (lowest # rest)), w1) \<Rightarrow>
          (case drain E lowest (lowest # rest) n i w1 of
             (Returns None, n', i', w2) \<Rightarrow> drain_passes E k n' i' w2
           | _ \<Rightarrow> None)
      | _ \<Rightarrow> None)"

subsection \<open>A concrete environment\<close>

text \<open>
  Scripted collaborators, for evaluating the definitions on concrete inputs: the reads of
  the ledger state and the outdated-ledger queries answer from a script, consumed one
  entry per call; the header lookup answers from a table; \<open>Run\<close> sets the session's
  \<open>Ingested\<close> and \<open>Err\<close> from a script.
\<close>

record demo_store =
  ledger_reads :: "LedgerState outcome list"
  headers :: "(int32 \<times> LedgerHeader) list"
  outdated_results :: "(error + int32 list) outcome list"
  run_results :: "(unit outcome \<times> go_int \<times> error option) list"

definition demo_CurrentState :: "demo_store \<Rightarrow> LedgerState outcome \<times> demo_store" where
  "demo_CurrentState s =
     (case ledger_reads s of
        [] \<Rightarrow> (Returns \<lparr>CoreElder = 0, CoreLatest = 0, HistoryLatest = 0\<rparr>, s)
      | r # rs \<Rightarrow> (r, s\<lparr>ledger_reads := rs\<rparr>))"

definition demo_LedgerHeaderBySequence ::
  "int32 \<Rightarrow> demo_store \<Rightarrow> (error + LedgerHeader) outcome \<times> demo_store" where
  "demo_LedgerHeaderBySequence seq s =
     (case map_of (headers s) seq of
        None \<Rightarrow> (Returns (Inl (Opaque ''sql: no rows in result set'')), s)
      | Some h \<Rightarrow> (Returns (Inr h), s))"

definition demo_OldestOutdatedLedgers ::
  "int \<Rightarrow> demo_store \<Rightarrow> (error + int32 list) outcome \<times> demo_store" where
  "demo_OldestOutdatedLedgers v s =
     (case outdated_results s of
        [] \<Rightarrow> (Returns (Inr []), s)
      | r # rs \<Rightarrow> (r, s\<lparr>outdated_results := rs\<rparr>))"

definition demo_Run :: "Session \<Rightarrow> demo_store \<Rightarrow> unit outcome \<times> Session \<times> demo_store" where
  "demo_Run is s =
     (case run_results s of
        [] \<Rightarrow> (Returns (), is, s)
      | (r, k, e) # rs \<Rightarrow> (r, is\<lparr>Ingested := k, Err := e\<rparr>, s\<lparr>run_results := rs\<rparr>))"

definition demo_env :: "demo_store env" where
  "demo_env =
     \<lparr>CurrentState = demo_CurrentState,
      LedgerHeaderBySequence = demo_LedgerHeaderBySequence,
      OldestOutdatedLedgers = demo_OldestOutdatedLedgers,
      Run = demo_Run,
      CurrentVersion = 8\<rparr>"

definition demo_world :: "demo_store \<Rightarrow> demo_store world" where
  "demo_world s =
     \<lparr>store = s, logs = [], sentry = [], reingest_calls = [], validate_calls = [], run_calls = []\<rparr>"

definition idle :: System where
  "idle = \<lparr>current = None, locked = False\<rparr>"

definition chain_store :: demo_store where
  "chain_store =
     \<lparr>ledger_reads = [], 
      headers = [(1, \<lparr>Sequence = 1, LedgerHash = ''h1'', PrevHash = ''h0''\<rparr>),
                 (2, \<lparr>Sequence = 2, LedgerHash = ''h2'', PrevHash = ''h1''\<rparr>),
                 (3, \<lparr>Sequence = 3, LedgerHash = ''h3'', PrevHash = ''xx''\<rparr>)],
      outdated_results = [], run_results = []\<rparr>"

definition reingest_store :: demo_store where
  "reingest_store =
     \<lparr>ledger_reads = [Returns \<lparr>CoreElder = 1, CoreLatest = 100, HistoryLatest = 100\<rparr>],
      headers = [],
      outdated_results = [],
      run_results = [(Returns (), 100, None)]\<rparr>"

definition first_tick_store :: demo_store where
  "first_tick_store =
     \<lparr>ledger_reads = [Returns \<lparr>CoreElder = 1, CoreLatest = 100, HistoryLatest = 0\<rparr>,
                      Returns \<lparr>CoreElder = 1, CoreLatest = 100, HistoryLatest = 0\<rparr>],
      headers = [],
      outdated_results = [],
      run_results = [(Returns (), 100, None)]\<rparr>"

definition next_tick_store :: demo_store where
  "next_tick_store =
     \<lparr>ledger_reads = [Returns \<lparr>CoreElder = 1, CoreLatest = 105, HistoryLatest = 100\<rparr>,
                      Returns \<lparr>CoreElder = 1, CoreLatest = 105, HistoryLatest = 100\<rparr>],
      headers = [(100, \<lparr>Sequence = 100, LedgerHash = ''h100'', PrevHash = ''h99''\<rparr>),
                 (101, \<lparr>Sequence = 101, LedgerHash = ''h101'', PrevHash = ''h100''\<rparr>)],
      outdated_results = [],
      run_results = [(Returns (), 5, None)]\<rparr>"

definition gap_store :: demo_store where
  "gap_store =
     \<lparr>ledger_reads = [Returns \<lparr>CoreElder = 1, CoreLatest = 105, HistoryLatest = 100\<rparr>,
                      Returns \<lparr>CoreElder = 1, CoreLatest = 105, HistoryLatest = 100\<rparr>],
      headers = [(100, \<lparr>Sequence = 100, LedgerHash = ''h100'', PrevHash = ''h99''\<rparr>),
                 (101, \<lparr>Sequence = 101, LedgerHash = ''h101'', PrevHash = ''xx''\<rparr>)],
      outdated_results = [],
      run_results = [(Returns (), 5, None)]\<rparr>"

definition caught_up_store :: demo_store where
  "caught_up_store =
     \<lparr>ledger_reads = [Returns \<lparr>CoreElder = 1, CoreLatest = 100, HistoryLatest = 100\<rparr>,
                      Returns \<lparr>CoreElder = 1, CoreLatest = 100, HistoryLatest = 100\<rparr>],
      headers = [(100, \<lparr>Sequence = 100, LedgerHash = ''h100'', PrevHash = ''h99''\<rparr>),
                 (101, \<lparr>Sequence = 101, LedgerHash = ''h101'', PrevHash = ''h100''\<rparr>)],
      outdated_results = [],
      run_results = []\<rparr>"

definition run_panics_store :: demo_store where
  "run_panics_store =
     \<lparr>ledger_reads = [Returns \<lparr>CoreElder = 1, CoreLatest = 100, HistoryLatest = 0\<rparr>,
                      Returns \<lparr>CoreElder = 1, CoreLatest = 100, HistoryLatest = 0\<rparr>],
      headers = [],
      outdated_results = [],
      run_results = [(Panics ''boom'', 7, None)]\<rparr>"

definition read_panics_store :: demo_store where
  "read_panics_store =
     \<lparr>ledger_reads = [Returns \<lparr>CoreElder = 1, CoreLatest = 100, HistoryLatest = 0\<rparr>,
                      Panics ''boom''],
      headers = [],
      outdated_results = [],
      run_results = [(Returns (), 100, None)]\<rparr>"

definition quiet_store :: demo_store where
  "quiet_store = \<lparr>ledger_reads = [], headers = [], outdated_results = [], run_results = []\<rparr>"

definition backlog_store :: demo_store where
  "backlog_store =
     \<lparr>ledger_reads = [], headers = [],
      outdated_results = [Returns (Inr [3, 4, 5]), Returns (Inr [])],
      run_results = [(Returns (), 3, None)]\<rparr>"

subsection \<open>Concurrent ticks\<close>

text \<open>
  Several callers of \<open>Tick\<close> on one scheduler, interleaved statement by statement. Each
  caller is at a point of \<open>Tick\<close> or of the \<open>runOnce\<close> it calls:
  \<^item> \<open>AtLock\<close>: before \<open>i.lock.Lock()\<close> (line 99); \<open>AtCheck\<close>: before the test of
    \<open>i.current\<close> (line 100); \<open>AtBusyUnlock\<close>: before the \<open>Unlock\<close> of the "already in
    progress" branch (line 102);
  \<^item> \<open>AtBuild\<close>: before \<open>newTickSession\<close> (line 106); \<open>AtInstall\<close>: before
    \<open>i.current = is\<close> (line 107); \<open>AtUnlock\<close>: before the \<open>Unlock\<close> of line 108;
  \<^item> \<open>AtRead\<close>: in \<open>runOnce\<close>, before the read of the ledger state (line 144);
    \<open>AtStashLock\<close>, \<open>AtStash\<close>, \<open>AtStashUnlock\<close>: lines 151 to 153; \<open>AtBody\<close>: the
    release is deferred, lines 161 to 195 are to run;
  \<^item> \<open>AtReleaseLock\<close>, \<open>AtRelease\<close>, \<open>AtReleaseUnlock\<close>: the deferred release, lines
    156 to 158;
  \<^item> \<open>Crashed\<close>: \<open>newTickSession\<close> has panicked and the caller has left \<open>Tick\<close> with the
    lock held; \<open>Idling\<close>: not in a call.
  A step is one statement of one caller. \<open>Lock\<close> is enabled only while the mutex is free.
  The session a caller carries is the one it built; what the run does to that object and
  to the world does not touch the slot and is left out.
\<close>

datatype pc =
    Idling
  | AtLock
  | AtCheck
  | AtBusyUnlock
  | AtBuild
  | AtInstall Session
  | AtUnlock Session
  | AtRead Session
  | AtStashLock Session
  | AtStash Session
  | AtStashUnlock Session
  | AtBody Session
  | AtReleaseLock Session
  | AtRelease Session
  | AtReleaseUnlock Session
  | Crashed

type_synonym config = "(nat \<Rightarrow> pc) \<times> System"

inductive tick_step :: "config \<Rightarrow> config \<Rightarrow> bool" where
  enter: "pcs t = Idling \<Longrightarrow> tick_step (pcs, i) (pcs(t := AtLock), i)"
| lock: "pcs t = AtLock \<Longrightarrow> \<not> locked i \<Longrightarrow>
         tick_step (pcs, i) (pcs(t := AtCheck), i\<lparr>locked := True\<rparr>)"
| busy: "pcs t = AtCheck \<Longrightarrow> current i \<noteq> None \<Longrightarrow>
         tick_step (pcs, i) (pcs(t := AtBusyUnlock), i)"
| busy_unlock: "pcs t = AtBusyUnlock \<Longrightarrow>
         tick_step (pcs, i) (pcs(t := Idling), i\<lparr>locked := False\<rparr>)"
| free: "pcs t = AtCheck \<Longrightarrow> current i = None \<Longrightarrow>
         tick_step (pcs, i) (pcs(t := AtBuild), i)"
| build: "pcs t = AtBuild \<Longrightarrow> tick_step (pcs, i) (pcs(t := AtInstall is), i)"
| build_panics: "pcs t = AtBuild \<Longrightarrow> tick_step (pcs, i) (pcs(t := Crashed), i)"
| install: "pcs t = AtInstall is \<Longrightarrow>
         tick_step (pcs, i) (pcs(t := AtUnlock is), i\<lparr>current := Some is\<rparr>)"
| unlock: "pcs t = AtUnlock is \<Longrightarrow>
         tick_step (pcs, i) (pcs(t := AtRead is), i\<lparr>locked := False\<rparr>)"
| read: "pcs t = AtRead is \<Longrightarrow> tick_step (pcs, i) (pcs(t := AtStashLock is), i)"
| read_panics: "pcs t = AtRead is \<Longrightarrow> tick_step (pcs, i) (pcs(t := Idling), i)"
| stash_lock: "pcs t = AtStashLock is \<Longrightarrow> \<not> locked i \<Longrightarrow>
         tick_step (pcs, i) (pcs(t := AtStash is), i\<lparr>locked := True\<rparr>)"
| stash: "pcs t = AtStash is \<Longrightarrow> tick_step (pcs, i) (pcs(t := AtStashUnlock is), i)"
| stash_unlock: "pcs t = AtStashUnlock is \<Longrightarrow>
         tick_step (pcs, i) (pcs(t := AtBody is), i\<lparr>locked := False\<rparr>)"
| body: "pcs t = AtBody is \<Longrightarrow> tick_step (pcs, i) (pcs(t := AtReleaseLock is), i)"
| release_lock: "pcs t = AtReleaseLock is \<Longrightarrow> \<not> locked i \<Longrightarrow>
         tick_step (pcs, i) (pcs(t := AtRelease is), i\<lparr>locked := True\<rparr>)"
| release: "pcs t = AtRelease is \<Longrightarrow>
         tick_step (pcs, i) (pcs(t := AtReleaseUnlock is), i\<lparr>current := None\<rparr>)"
| release_unlock: "pcs t = AtReleaseUnlock is \<Longrightarrow>
         tick_step (pcs, i) (pcs(t := Idling), i\<lparr>locked := False\<rparr>)"

inductive reachable :: "config \<Rightarrow> bool" where
  init: "reachable (\<lambda>t. Idling, \<lparr>current = None, locked = False\<rparr>)"
| step: "reachable c \<Longrightarrow> tick_step c c' \<Longrightarrow> reachable c'"

fun holds_lock :: "pc \<Rightarrow> bool" where
  "holds_lock Idling = False"
| "holds_lock AtLock = False"
| "holds_lock (AtRead is) = False"
| "holds_lock (AtStashLock is) = False"
| "holds_lock (AtBody is) = False"
| "holds_lock (AtReleaseLock is) = False"
| "holds_lock p = True"

fun installed :: "pc \<Rightarrow> Session option" where
  "installed (AtUnlock is) = Some is"
| "installed (AtRead is) = Some is"
| "installed (AtStashLock is) = Some is"
| "installed (AtStash is) = Some is"
| "installed (AtStashUnlock is) = Some is"
| "installed (AtBody is) = Some is"
| "installed (AtReleaseLock is) = Some is"
| "installed (AtRelease is) = Some is"
| "installed p = None"

fun building :: "pc \<Rightarrow> bool" where
  "building AtBuild = True"
| "building (AtInstall is) = True"
| "building p = False"

definition slot_invariant :: "config \<Rightarrow> bool" where
  "slot_invariant c =
     (case c of (pcs, i) \<Rightarrow>
        (\<forall>t. holds_lock (pcs t) \<longrightarrow> locked i)
      \<and> (\<forall>t t'. holds_lock (pcs t) \<and> holds_lock (pcs t') \<longrightarrow> t = t')
      \<and> (\<forall>t is. installed (pcs t) = Some is \<longrightarrow> current i = Some is)
      \<and> (\<forall>t t'. installed (pcs t) \<noteq> None \<and> installed (pcs t') \<noteq> None \<longrightarrow> t = t')
      \<and> (\<forall>t. building (pcs t) \<longrightarrow> current i = None))"

text \<open>A scheduler state whose slot is taken.\<close>

definition occupied :: System where
  "occupied = \<lparr>current = Some (NewSession 1 100), locked = False\<rparr>"

section \<open>Properties\<close>

subsection \<open>Unfolding the definitions on concrete inputs\<close>

lemmas demo_defs =
  demo_env_def demo_world_def demo_CurrentState_def demo_LedgerHeaderBySequence_def
  demo_OldestOutdatedLedgers_def demo_Run_def idle_def

lemmas tick_defs =
  Tick_def Lock_def Unlock_def newTickSession_def runOnce_def runOnce_body_def runOnce_run_def
  Session_Run_def validateLedgerChain_def recovered_def call_def log_emit_def NewSession_def
  Let_def

subsection \<open>validateLedgerChain\<close>

text \<open>
  C5. \<open>validateLedgerChain seq\<close> returns a lookup error (the lookup's error, wrapped) when
  the lookup of the header for \<open>seq\<close> fails, and when that of the header for \<open>seq - 1\<close>
  fails; when both lookups return a header, it returns nil if and only if
  \<open>PrevHash\<close> of the first equals \<open>LedgerHash\<close> of the second, and on a mismatch it returns
  the error "cur and prev ledger hashes don't match", which no wrapped lookup error equals.
\<close>

theorem validateLedgerChain_verdict:
  "(\<forall>err s1. LedgerHeaderBySequence E seq (store w) = (Returns (Inl err), s1) \<longrightarrow>
      fst (validateLedgerChain E seq w)
        = Returns (Some (Wrap err ''validateLedgerChain: failed to load cur ledger'')))
   \<and> (\<forall>cur s1 err s2.
        LedgerHeaderBySequence E seq (store w) = (Returns (Inr cur), s1) \<and>
        LedgerHeaderBySequence E (seq - 1) s1 = (Returns (Inl err), s2) \<longrightarrow>
      fst (validateLedgerChain E seq w)
        = Returns (Some (Wrap err ''validateLedgerChain: failed to load prev ledger'')))
   \<and> (\<forall>cur s1 prev s2.
        LedgerHeaderBySequence E seq (store w) = (Returns (Inr cur), s1) \<and>
        LedgerHeaderBySequence E (seq - 1) s1 = (Returns (Inr prev), s2) \<longrightarrow>
      (fst (validateLedgerChain E seq w) = Returns None \<longleftrightarrow> PrevHash cur = LedgerHash prev) \<and>
      (PrevHash cur \<noteq> LedgerHash prev \<longrightarrow>
         fst (validateLedgerChain E seq w)
           = Returns (Some (New ''cur and prev ledger hashes don't match''))))
   \<and> (\<forall>err msg. New ''cur and prev ledger hashes don't match'' \<noteq> Wrap err msg)"
  by (simp add: validateLedgerChain_def call_def Let_def)


theorem validateLedgerChain_verdict_witness:
  "LedgerHeaderBySequence demo_env 3 (store (demo_world chain_store))
     = (Returns (Inr \<lparr>Sequence = 3, LedgerHash = ''h3'', PrevHash = ''xx''\<rparr>), chain_store)
   \<and> LedgerHeaderBySequence demo_env (3 - 1) chain_store
     = (Returns (Inr \<lparr>Sequence = 2, LedgerHash = ''h2'', PrevHash = ''h1''\<rparr>), chain_store)
   \<and> fst (validateLedgerChain demo_env 3 (demo_world chain_store))
     = Returns (Some (New ''cur and prev ledger hashes don't match''))
   \<and> LedgerHeaderBySequence demo_env 1 (store (demo_world chain_store))
     = (Returns (Inr \<lparr>Sequence = 1, LedgerHash = ''h1'', PrevHash = ''h0''\<rparr>), chain_store)
   \<and> LedgerHeaderBySequence demo_env (1 - 1) chain_store
     = (Returns (Inl (Opaque ''sql: no rows in result set'')), chain_store)
   \<and> fst (validateLedgerChain demo_env 1 (demo_world chain_store))
     = Returns (Some (Wrap (Opaque ''sql: no rows in result set'')
                       ''validateLedgerChain: failed to load prev ledger''))
   \<and> LedgerHeaderBySequence demo_env 4 (store (demo_world chain_store))
     = (Returns (Inl (Opaque ''sql: no rows in result set'')), chain_store)
   \<and> fst (validateLedgerChain demo_env 4 (demo_world chain_store))
     = Returns (Some (Wrap (Opaque ''sql: no rows in result set'')
                       ''validateLedgerChain: failed to load cur ledger''))"
  using validateLedgerChain_verdict [of demo_env 3 "demo_world chain_store"]
        validateLedgerChain_verdict [of demo_env 1 "demo_world chain_store"]
        validateLedgerChain_verdict [of demo_env 4 "demo_world chain_store"]
  by (simp add: demo_env_def demo_LedgerHeaderBySequence_def demo_world_def chain_store_def)

subsection \<open>Words, the lock, and the shape of a tick\<close>

lemma sint_succ:
  fixes x :: int32
  assumes "sint x < 2147483647"
  shows "sint (x + 1) = sint x + 1"
proof -
  have lo: "- (2 ^ 31) \<le> sint x" using sint_ge [of x] by simp
  have "sint (x + 1) = signed_take_bit 31 (sint x + 1)"
    by (simp add: sint_word_add)
  also have "\<dots> = sint x + 1"
    using lo assms by (intro signed_take_bit_int_eq_self) simp_all
  finally show ?thesis .
qed

lemma Unlock_Lock: "\<not> locked i \<Longrightarrow> Lock i = Some (i\<lparr>locked := True\<rparr>)"
  by (simp add: Lock_def)

lemma Unlock_after_Lock: "\<not> locked i \<Longrightarrow> Unlock (i\<lparr>locked := True\<rparr>) = i"
  by (cases i) (simp add: Unlock_def)

lemma Unlock_install:
  "\<not> locked i \<Longrightarrow> Unlock (i\<lparr>locked := True, current := c\<rparr>) = i\<lparr>current := c\<rparr>"
  by (cases i) (simp add: Unlock_def)

lemma newTickSession_returns:
  "CurrentState E (store w) = (Returns ls, s1) \<Longrightarrow>
   newTickSession E w =
     (Returns (NewSession (if HistoryLatest ls = 0 then CoreElder ls else HistoryLatest ls + 1)
                          (CoreLatest ls)),
      w\<lparr>store := s1\<rparr>)"
  by (simp add: newTickSession_def call_def Let_def)

lemma runOnce_unlocked:
  "\<not> locked i \<Longrightarrow> CurrentState E (store w) = (Returns ls, s1) \<Longrightarrow>
   runOnce E i w =
     (case runOnce_body E ls (current i) (w\<lparr>store := s1\<rparr>) of
        (r, is', w2) \<Rightarrow> Some (is', i\<lparr>current := None\<rparr>, recovered r w2))"
  by (cases i) (simp add: runOnce_def call_def Lock_def Unlock_def Let_def split: prod.splits)

lemma runOnce_read_panics:
  "CurrentState E (store w) = (Panics p, s1) \<Longrightarrow>
   runOnce E i w = Some (None, i, recovered (Panics p) (w\<lparr>store := s1\<rparr>))"
  by (simp add: runOnce_def call_def)

lemma Tick_installs:
  assumes "\<not> locked i" "current i = None" "newTickSession E w = (Returns is, w1)"
  shows "Tick E i w =
           map_option (\<lambda>(is', i', w'). (Returns (Some (case is' of None \<Rightarrow> is | Some s \<Rightarrow> s)), i', w'))
             (runOnce E (i\<lparr>current := Some is\<rparr>) w1)"
  using assms
  by (simp add: Tick_def Unlock_Lock Unlock_install Let_def split: option.splits)

subsection \<open>Reingestion entry points\<close>

text \<open>
  C8. \<open>ReingestAll\<close> is \<open>ReingestRange\<close> on \<open>CoreElder\<close> and \<open>CoreLatest\<close> of the ledger
  state it reads; \<open>ReingestSingle seq\<close> is \<open>ReingestRange seq seq\<close> with the count dropped;
  \<open>ReingestRange start end\<close> invokes \<open>Run\<close> once, on the session \<open>NewSession start end\<close>
  with \<open>ClearExisting\<close> set, and returns that session's \<open>Ingested\<close> and \<open>Err\<close> (the panic,
  when \<open>Run\<close> panics); it hands the scheduler's state back as it got it, and neither its
  result nor the world depends on that state.
\<close>

theorem Reingest_entry_points:
  "(\<forall>ls s1. CurrentState E (store w) = (Returns ls, s1) \<longrightarrow>
      ReingestAll E i w = ReingestRange E (CoreElder ls) (CoreLatest ls) i (w\<lparr>store := s1\<rparr>))
   \<and> ReingestSingle E seq i w =
       (case ReingestRange E seq seq i w of (r, i', w') \<Rightarrow> (map_outcome snd r, i', w'))
   \<and> (\<forall>r is' s'.
        Run E ((NewSession start end)\<lparr>ClearExisting := True\<rparr>) (store w) = (r, is', s') \<longrightarrow>
        ReingestRange E start end i w =
          (map_outcome (\<lambda>u. (Ingested is', Err is')) r, i,
           w\<lparr>store := s',
             reingest_calls := reingest_calls w @ [(start, end)],
             run_calls := run_calls w @ [(NewSession start end)\<lparr>ClearExisting := True\<rparr>]\<rparr>))
   \<and> FirstLedger (Cursor ((NewSession start end)\<lparr>ClearExisting := True\<rparr>)) = start
   \<and> LastLedger (Cursor ((NewSession start end)\<lparr>ClearExisting := True\<rparr>)) = end
   \<and> ClearExisting ((NewSession start end)\<lparr>ClearExisting := True\<rparr>)
   \<and> (\<forall>i2. fst (ReingestRange E start end i2 w) = fst (ReingestRange E start end i w)
          \<and> fst (snd (ReingestRange E start end i2 w)) = i2
          \<and> snd (snd (ReingestRange E start end i2 w)) = snd (snd (ReingestRange E start end i w)))"
proof -
  have all: "\<forall>ls s1. CurrentState E (store w) = (Returns ls, s1) \<longrightarrow>
      ReingestAll E i w = ReingestRange E (CoreElder ls) (CoreLatest ls) i (w\<lparr>store := s1\<rparr>)"
    by (simp add: ReingestAll_def call_def)
  have single: "ReingestSingle E seq i w =
       (case ReingestRange E seq seq i w of (r, i', w') \<Rightarrow> (map_outcome snd r, i', w'))"
    by (simp add: ReingestSingle_def split: prod.splits outcome.splits)
  have range: "\<forall>r is' s'.
        Run E ((NewSession start end)\<lparr>ClearExisting := True\<rparr>) (store w) = (r, is', s') \<longrightarrow>
        ReingestRange E start end i w =
          (map_outcome (\<lambda>u. (Ingested is', Err is')) r, i,
           w\<lparr>store := s',
             reingest_calls := reingest_calls w @ [(start, end)],
             run_calls := run_calls w @ [(NewSession start end)\<lparr>ClearExisting := True\<rparr>]\<rparr>)"
    by (simp add: ReingestRange_def Session_Run_def Let_def split: outcome.splits)
  have indep: "\<forall>i2. fst (ReingestRange E start end i2 w) = fst (ReingestRange E start end i w)
          \<and> fst (snd (ReingestRange E start end i2 w)) = i2
          \<and> snd (snd (ReingestRange E start end i2 w)) = snd (snd (ReingestRange E start end i w))"
    by (simp add: ReingestRange_def Let_def split: prod.splits outcome.splits)
  show ?thesis
    using all single range indep by (simp add: NewSession_def)
qed

theorem Reingest_entry_points_witness:
  "CurrentState demo_env (store (demo_world reingest_store))
     = (Returns \<lparr>CoreElder = 1, CoreLatest = 100, HistoryLatest = 100\<rparr>,
        reingest_store\<lparr>ledger_reads := []\<rparr>)
   \<and> ReingestAll demo_env idle (demo_world reingest_store)
     = ReingestRange demo_env 1 100 idle (demo_world (reingest_store\<lparr>ledger_reads := []\<rparr>))
   \<and> Run demo_env ((NewSession 1 100)\<lparr>ClearExisting := True\<rparr>)
        (store (demo_world (reingest_store\<lparr>ledger_reads := []\<rparr>)))
     = (Returns (), (NewSession 1 100)\<lparr>ClearExisting := True, Ingested := 100\<rparr>,
        reingest_store\<lparr>ledger_reads := [], run_results := []\<rparr>)
   \<and> fst (ReingestRange demo_env 1 100 idle (demo_world (reingest_store\<lparr>ledger_reads := []\<rparr>)))
     = Returns (100, None)"
  using Reingest_entry_points
          [of demo_env "demo_world reingest_store" idle 1 1 100]
        Reingest_entry_points
          [of demo_env "demo_world (reingest_store\<lparr>ledger_reads := []\<rparr>)" idle 1 1 100]
  by (simp add: demo_env_def demo_CurrentState_def demo_Run_def demo_world_def
        reingest_store_def NewSession_def)

subsection \<open>The session a tick builds\<close>

text \<open>
  C3. When the lock and the slot are free and the read of the ledger state returns \<open>ls\<close>,
  the session \<open>Tick\<close> builds starts at \<open>CoreElder ls\<close> when \<open>HistoryLatest ls = 0\<close> and at
  \<open>HistoryLatest ls + 1\<close> otherwise (the 32-bit sum, which is the integer successor below
  the largest \<open>int32\<close>), ends at \<open>CoreLatest ls\<close>, has \<open>ClearExisting\<close> false, and is the
  value of \<open>current\<close> with which \<open>runOnce\<close> is entered.
\<close>

theorem newTickSession_range:
  assumes "\<not> locked i" and "current i = None"
    and "CurrentState E (store w) = (Returns ls, s1)"
  shows "\<exists>is. newTickSession E w = (Returns is, w\<lparr>store := s1\<rparr>)
           \<and> (HistoryLatest ls = 0 \<longrightarrow> FirstLedger (Cursor is) = CoreElder ls)
           \<and> (HistoryLatest ls \<noteq> 0 \<longrightarrow> FirstLedger (Cursor is) = HistoryLatest ls + 1)
           \<and> (0 < sint (HistoryLatest ls) \<and> sint (HistoryLatest ls) < 2147483647 \<longrightarrow>
                sint (FirstLedger (Cursor is)) = sint (HistoryLatest ls) + 1)
           \<and> LastLedger (Cursor is) = CoreLatest ls
           \<and> \<not> ClearExisting is
           \<and> Tick E i w =
               map_option
                 (\<lambda>(is', i', w'). (Returns (Some (case is' of None \<Rightarrow> is | Some s \<Rightarrow> s)), i', w'))
                 (runOnce E (i\<lparr>current := Some is\<rparr>) (w\<lparr>store := s1\<rparr>))"
proof -
  let ?is = "NewSession (if HistoryLatest ls = 0 then CoreElder ls else HistoryLatest ls + 1)
                        (CoreLatest ls)"
  have nts: "newTickSession E w = (Returns ?is, w\<lparr>store := s1\<rparr>)"
    using assms(3) by (rule newTickSession_returns)
  have plus: "sint (HistoryLatest ls + 1) = sint (HistoryLatest ls) + 1"
    if "0 < sint (HistoryLatest ls)" "sint (HistoryLatest ls) < 2147483647"
    using that by (simp add: sint_succ)
  show ?thesis
    using nts plus Tick_installs [OF assms(1,2) nts]
    by (intro exI [of _ ?is]) (simp add: NewSession_def)
qed


theorem newTickSession_range_witness:
  "\<not> locked idle \<and> current idle = None
   \<and> CurrentState demo_env (store (demo_world next_tick_store))
       = (Returns \<lparr>CoreElder = 1, CoreLatest = 105, HistoryLatest = 100\<rparr>,
          next_tick_store\<lparr>ledger_reads :=
            [Returns \<lparr>CoreElder = 1, CoreLatest = 105, HistoryLatest = 100\<rparr>]\<rparr>)
   \<and> fst (newTickSession demo_env (demo_world next_tick_store)) = Returns (NewSession 101 105)
   \<and> fst (newTickSession demo_env (demo_world first_tick_store)) = Returns (NewSession 1 100)"
  using newTickSession_range [of idle demo_env "demo_world next_tick_store"
          "\<lparr>CoreElder = 1, CoreLatest = 105, HistoryLatest = 100\<rparr>"
          "next_tick_store\<lparr>ledger_reads :=
            [Returns \<lparr>CoreElder = 1, CoreLatest = 105, HistoryLatest = 100\<rparr>]\<rparr>"]
  by (simp add: demo_defs newTickSession_def call_def NewSession_def
        next_tick_store_def first_tick_store_def)

subsection \<open>What a tick leaves in the world\<close>

lemma validateLedgerChain_frame:
  "logs (snd (validateLedgerChain E seq w)) = logs w"
  "sentry (snd (validateLedgerChain E seq w)) = sentry w"
  "run_calls (snd (validateLedgerChain E seq w)) = run_calls w"
  "reingest_calls (snd (validateLedgerChain E seq w)) = reingest_calls w"
  "validate_calls (snd (validateLedgerChain E seq w)) = validate_calls w @ [seq]"
  by (simp_all add: validateLedgerChain_def call_def Let_def split_beta
           split: outcome.splits sum.splits)

lemma validateLedgerChain_store_only:
  assumes "store w = store v"
  shows "fst (validateLedgerChain E seq w) = fst (validateLedgerChain E seq v)"
  using assms
  by (simp add: validateLedgerChain_def call_def Let_def split_beta
           split: outcome.splits sum.splits)

lemma Session_Run_frame:
  "logs (snd (snd (Session_Run E is w))) = logs w"
  "sentry (snd (snd (Session_Run E is w))) = sentry w"
  "run_calls (snd (snd (Session_Run E is w))) = run_calls w @ [is]"
  "reingest_calls (snd (snd (Session_Run E is w))) = reingest_calls w"
  "validate_calls (snd (snd (Session_Run E is w))) = validate_calls w"
  by (simp_all add: Session_Run_def Let_def split_beta)

lemma runOnce_run_frame:
  "sentry (snd (snd (runOnce_run E is w))) = sentry w"
  "run_calls (snd (snd (runOnce_run E is w))) = run_calls w @ [is]"
  "reingest_calls (snd (snd (runOnce_run E is w))) = reingest_calls w"
  "validate_calls (snd (snd (runOnce_run E is w))) = validate_calls w"
  by (simp_all add: runOnce_run_def log_emit_def split_beta Session_Run_frame
           split: outcome.splits option.splits)

lemma runOnce_body_sentry:
  "sentry (snd (snd (runOnce_body E ls cur w))) = sentry w"
  by (simp add: runOnce_body_def log_emit_def Let_def split_beta
        validateLedgerChain_frame runOnce_run_frame
           split: outcome.splits option.splits)

lemma runOnce_body_Some:
  "fst (snd (runOnce_body E ls (Some is) w)) \<noteq> None"
  by (simp add: runOnce_body_def Let_def split_beta
           split: outcome.splits option.splits)

lemma newTickSession_frame:
  assumes "newTickSession E w = (Returns is, w1)"
  shows "logs w1 = logs w" and "sentry w1 = sentry w" and "run_calls w1 = run_calls w"
    and "reingest_calls w1 = reingest_calls w" and "validate_calls w1 = validate_calls w"
    and "Err is = None" and "Ingested is = 0" and "\<not> ClearExisting is"
  using assms
  by (auto simp: newTickSession_def call_def Let_def NewSession_def
           split: prod.splits outcome.splits)

lemma release_installed:
  "\<not> locked i \<Longrightarrow> current i = None \<Longrightarrow> i\<lparr>current := Some is, current := None\<rparr> = i"
  by (cases i) simp

lemma Tick_runs:
  assumes "\<not> locked i" and "current i = None"
    and "newTickSession E w = (Returns is, w1)"
    and "CurrentState E (store w1) = (Returns ls2, s2)"
  shows "Tick E i w =
           Some (Returns (fst (snd (runOnce_body E ls2 (Some is) (w1\<lparr>store := s2\<rparr>)))), i,
                 recovered (fst (runOnce_body E ls2 (Some is) (w1\<lparr>store := s2\<rparr>)))
                   (snd (snd (runOnce_body E ls2 (Some is) (w1\<lparr>store := s2\<rparr>)))))"
proof -
  have ro: "runOnce E (i\<lparr>current := Some is\<rparr>) w1 =
          (case runOnce_body E ls2 (Some is) (w1\<lparr>store := s2\<rparr>) of
             (r, is', w2) \<Rightarrow> Some (is', i, recovered r w2))"
    using runOnce_unlocked [of "i\<lparr>current := Some is\<rparr>" E w1 ls2 s2] assms
    by (simp add: release_installed)
  obtain cur' where "fst (snd (runOnce_body E ls2 (Some is) (w1\<lparr>store := s2\<rparr>))) = Some cur'"
    using runOnce_body_Some [of E ls2 "is" "w1\<lparr>store := s2\<rparr>"] by auto
  then show ?thesis
    using Tick_installs [OF assms(1,2,3)] ro
    by (simp add: split_beta)
qed

lemma Tick_read_panics:
  assumes "\<not> locked i" and "current i = None"
    and "newTickSession E w = (Returns is, w1)"
    and "CurrentState E (store w1) = (Panics p, s2)"
  shows "Tick E i w =
           Some (Returns (Some is), i\<lparr>current := Some is\<rparr>,
                 recovered (Panics p) (w1\<lparr>store := s2\<rparr>))"
  using Tick_installs [OF assms(1,2,3)] runOnce_read_panics [OF assms(4)]
  by simp

lemma recovered_simps:
  "recovered (Returns u) w = w"
  "sentry (recovered (Panics p) w) = sentry w @ [FromPanic p]"
  "logs (recovered (Panics p) w) = logs w @ [LogSessionPanicked (FromPanic p)]"
  "run_calls (recovered r w) = run_calls w"
  "validate_calls (recovered r w) = validate_calls w"
  "reingest_calls (recovered r w) = reingest_calls w"
  "store (recovered r w) = store w"
  by (simp_all add: recovered_def log_emit_def Let_def split: outcome.splits)

lemma runOnce_body_validate_calls:
  "validate_calls (snd (snd (runOnce_body E ls (Some is) w))) =
     validate_calls w @
       (if sint (FirstLedger (Cursor is)) \<le> sint (LastLedger (Cursor is)) \<and>
           FirstLedger (Cursor is) \<noteq> CoreElder ls
        then [FirstLedger (Cursor is)] else [])"
  by (simp add: runOnce_body_def log_emit_def Let_def split_beta not_less
        validateLedgerChain_frame runOnce_run_frame
           split: outcome.splits option.splits)

lemma runOnce_body_empty_range:
  "sint (LastLedger (Cursor is)) < sint (FirstLedger (Cursor is)) \<Longrightarrow>
   runOnce_body E ls (Some is) w = (Returns (), Some is, w)"
  by (simp add: runOnce_body_def)

lemma runOnce_body_gap:
  assumes "sint (FirstLedger (Cursor is)) \<le> sint (LastLedger (Cursor is))"
    and "FirstLedger (Cursor is) \<noteq> CoreElder ls"
    and "fst (validateLedgerChain E (FirstLedger (Cursor is)) w) = Returns (Some err)"
  shows "fst (runOnce_body E ls (Some is) w) = Returns ()"
    and "fst (snd (runOnce_body E ls (Some is) w)) = Some is"
    and "run_calls (snd (snd (runOnce_body E ls (Some is) w))) = run_calls w"
    and "logs (snd (snd (runOnce_body E ls (Some is) w))) =
           logs w @ (if HistoryLatest ls = 0 then [LogHistoryEmpty (FirstLedger (Cursor is))] else [])
                  @ [LogLedgerGap (FirstLedger (Cursor is)) err]"
proof -
  let ?F = "FirstLedger (Cursor is)"
  let ?w1 = "if HistoryLatest ls = 0 then log_emit (LogHistoryEmpty ?F) w else w"
  have st: "store ?w1 = store w" by (simp add: log_emit_def)
  have v: "fst (validateLedgerChain E ?F ?w1) = Returns (Some err)"
    using validateLedgerChain_store_only [OF st] assms(3) by simp
  have b: "runOnce_body E ls (Some is) w =
             (Returns (), Some is, log_emit (LogLedgerGap ?F err) (snd (validateLedgerChain E ?F ?w1)))"
    using assms(1,2) v
    by (simp add: runOnce_body_def Let_def split_beta not_less)
  show "fst (runOnce_body E ls (Some is) w) = Returns ()"
    and "fst (snd (runOnce_body E ls (Some is) w)) = Some is"
    by (simp_all add: b)
  show "run_calls (snd (snd (runOnce_body E ls (Some is) w))) = run_calls w"
    by (simp add: b log_emit_def validateLedgerChain_frame)
  show "logs (snd (snd (runOnce_body E ls (Some is) w))) =
           logs w @ (if HistoryLatest ls = 0 then [LogHistoryEmpty ?F] else [])
                  @ [LogLedgerGap ?F err]"
    by (simp add: b log_emit_def validateLedgerChain_frame)
qed

lemma runOnce_body_quiet_run:
  assumes "sint (FirstLedger (Cursor is)) \<le> sint (LastLedger (Cursor is))"
    and "FirstLedger (Cursor is) = CoreElder ls"
    and "Run E is (store w) = (Returns (), is, s3)"
    and "Err is = None"
  shows "fst (snd (runOnce_body E ls (Some is) w)) = Some is"
    and "run_calls (snd (snd (runOnce_body E ls (Some is) w))) = run_calls w @ [is]"
  using assms
  by (simp_all add: runOnce_body_def runOnce_run_def Session_Run_def log_emit_def Let_def not_less)

subsection \<open>Panics and the release of the slot\<close>

text \<open>
  C2, amended. Take an execution of \<open>Tick\<close> that installs a session: the lock and the slot
  are free and \<open>newTickSession\<close> returns \<open>is\<close>. Then \<open>Tick\<close> returns, normally and with a
  non-nil session, and leaves the lock free. When the read of the ledger state at the top
  of \<open>runOnce\<close> returns, the slot is empty again after \<open>Tick\<close>, however the rest of
  \<open>runOnce\<close> ends: a panic raised there (in the chain validation or in \<open>Session.Run\<close>)
  is turned into an error by \<open>FromPanic\<close>, logged and reported to Sentry, and a normal
  end reports nothing. A panic of that first read is recovered, logged and reported too.
  The release is the one deferred function of \<open>runOnce\<close>, which the model runs once on
  every path that has registered it.
\<close>

theorem Tick_recovers_and_releases:
  assumes "\<not> locked i" and "current i = None"
    and "newTickSession E w = (Returns is, w1)"
  shows "\<exists>is' i' w'.
           Tick E i w = Some (Returns (Some is'), i', w') \<and> \<not> locked i'
         \<and> (\<forall>ls2 s2. CurrentState E (store w1) = (Returns ls2, s2) \<longrightarrow>
               current i' = None
             \<and> (\<forall>p. fst (runOnce_body E ls2 (Some is) (w1\<lparr>store := s2\<rparr>)) = Panics p \<longrightarrow>
                    sentry w' = sentry w1 @ [FromPanic p]
                  \<and> last (logs w') = LogSessionPanicked (FromPanic p))
             \<and> (\<forall>u. fst (runOnce_body E ls2 (Some is) (w1\<lparr>store := s2\<rparr>)) = Returns u \<longrightarrow>
                    sentry w' = sentry w1))
         \<and> (\<forall>p s2. CurrentState E (store w1) = (Panics p, s2) \<longrightarrow>
               sentry w' = sentry w1 @ [FromPanic p]
             \<and> last (logs w') = LogSessionPanicked (FromPanic p))"
proof (cases "CurrentState E (store w1)")
  case (Pair r s2)
  show ?thesis
  proof (cases r)
    case (Returns ls2)
    let ?b = "runOnce_body E ls2 (Some is) (w1\<lparr>store := s2\<rparr>)"
    have rd: "CurrentState E (store w1) = (Returns ls2, s2)"
      using Pair Returns by simp
    obtain is' where is': "fst (snd ?b) = Some is'"
      using runOnce_body_Some [of E ls2 "is" "w1\<lparr>store := s2\<rparr>"] by auto
    have t: "Tick E i w = Some (Returns (Some is'), i, recovered (fst ?b) (snd (snd ?b)))"
      using Tick_runs [OF assms rd] is' by simp
    have sen: "sentry (snd (snd ?b)) = sentry w1"
      by (simp add: runOnce_body_sentry)
    show ?thesis
      using t rd sen assms(1,2)
      by (intro exI [of _ is'] exI [of _ i] exI [of _ "recovered (fst ?b) (snd (snd ?b))"])
         (auto simp: recovered_simps)
  next
    case (Panics p)
    have rd: "CurrentState E (store w1) = (Panics p, s2)"
      using Pair Panics by simp
    show ?thesis
      using Tick_read_panics [OF assms rd] rd assms(1)
      by (intro exI [of _ "is"] exI [of _ "i\<lparr>current := Some is\<rparr>"]
            exI [of _ "recovered (Panics p) (w1\<lparr>store := s2\<rparr>)"])
         (simp add: recovered_simps)
  qed
qed

theorem Tick_recovers_and_releases_witness:
  "\<not> locked idle \<and> current idle = None
   \<and> newTickSession demo_env (demo_world run_panics_store)
       = (Returns (NewSession 1 100),
          demo_world (run_panics_store\<lparr>ledger_reads :=
            [Returns \<lparr>CoreElder = 1, CoreLatest = 100, HistoryLatest = 0\<rparr>]\<rparr>))
   \<and> map_option fst (Tick demo_env idle (demo_world run_panics_store))
       = Some (Returns (Some ((NewSession 1 100)\<lparr>Ingested := 7\<rparr>)))
   \<and> map_option (fst \<circ> snd) (Tick demo_env idle (demo_world run_panics_store)) = Some idle
   \<and> map_option (sentry \<circ> snd \<circ> snd) (Tick demo_env idle (demo_world run_panics_store))
       = Some [FromPanic ''boom'']
   \<and> map_option (logs \<circ> snd \<circ> snd) (Tick demo_env idle (demo_world run_panics_store))
       = Some [LogHistoryEmpty 1, LogSessionPanicked (FromPanic ''boom'')]"
  using Tick_recovers_and_releases [of idle demo_env "demo_world run_panics_store"
          "NewSession 1 100"
          "demo_world (run_panics_store\<lparr>ledger_reads :=
            [Returns \<lparr>CoreElder = 1, CoreLatest = 100, HistoryLatest = 0\<rparr>]\<rparr>)"]
  by (simp add: demo_defs tick_defs run_panics_store_def)

text \<open>
  The claim as it stands includes the panics of any state read of \<open>runOnce\<close>. The read of
  the ledger state comes before the release is deferred: when it panics, the panic is
  recovered and reported, \<open>Tick\<close> returns, and the slot still holds the session.
\<close>

theorem Tick_release_skipped_counterexample:
  "newTickSession demo_env (demo_world read_panics_store)
     = (Returns (NewSession 1 100),
        demo_world (read_panics_store\<lparr>ledger_reads := [Panics ''boom'']\<rparr>))
   \<and> map_option fst (Tick demo_env idle (demo_world read_panics_store))
       = Some (Returns (Some (NewSession 1 100)))
   \<and> map_option (sentry \<circ> snd \<circ> snd) (Tick demo_env idle (demo_world read_panics_store))
       = Some [FromPanic ''boom'']
   \<and> map_option (current \<circ> fst \<circ> snd) (Tick demo_env idle (demo_world read_panics_store))
       = Some (Some (NewSession 1 100))"
  by (simp add: demo_defs tick_defs read_panics_store_def)

subsection \<open>Chain validation before the run\<close>

text \<open>
  C6, amended. In a tick that installs the session \<open>is\<close> and whose \<open>runOnce\<close> reads the
  ledger state \<open>ls2\<close>, \<open>validateLedgerChain\<close> is invoked, on \<open>FirstLedger\<close> of the session,
  exactly when the range is not empty (\<open>FirstLedger \<le> LastLedger\<close>) and \<open>FirstLedger\<close>
  differs from \<open>CoreElder ls2\<close>. When it is invoked and returns an error, \<open>Session.Run\<close> is
  not invoked, the gap is logged with that error, nothing is reported to Sentry, \<open>Tick\<close>
  returns normally with the session untouched, and the slot and the lock are free
  afterwards, so that the next tick starts afresh.
\<close>

theorem chain_validation_gates_the_run:
  assumes "\<not> locked i" and "current i = None"
    and "newTickSession E w = (Returns is, w1)"
    and "CurrentState E (store w1) = (Returns ls2, s2)"
  shows "\<exists>is' i' w'.
           Tick E i w = Some (Returns (Some is'), i', w')
         \<and> validate_calls w' =
             validate_calls w1 @
               (if sint (FirstLedger (Cursor is)) \<le> sint (LastLedger (Cursor is)) \<and>
                   FirstLedger (Cursor is) \<noteq> CoreElder ls2
                then [FirstLedger (Cursor is)] else [])
         \<and> (\<forall>err. sint (FirstLedger (Cursor is)) \<le> sint (LastLedger (Cursor is)) \<and>
                  FirstLedger (Cursor is) \<noteq> CoreElder ls2 \<and>
                  fst (validateLedgerChain E (FirstLedger (Cursor is)) (w1\<lparr>store := s2\<rparr>))
                    = Returns (Some err) \<longrightarrow>
                is' = is
              \<and> run_calls w' = run_calls w1
              \<and> sentry w' = sentry w1
              \<and> logs w' =
                  logs w1 @ (if HistoryLatest ls2 = 0
                             then [LogHistoryEmpty (FirstLedger (Cursor is))] else [])
                          @ [LogLedgerGap (FirstLedger (Cursor is)) err]
              \<and> current i' = None \<and> \<not> locked i')"
proof -
  let ?b = "runOnce_body E ls2 (Some is) (w1\<lparr>store := s2\<rparr>)"
  obtain is' where is': "fst (snd ?b) = Some is'"
    using runOnce_body_Some [of E ls2 "is" "w1\<lparr>store := s2\<rparr>"] by auto
  have t: "Tick E i w = Some (Returns (Some is'), i, recovered (fst ?b) (snd (snd ?b)))"
    using Tick_runs [OF assms] is' by simp
  have vc: "validate_calls (recovered (fst ?b) (snd (snd ?b))) =
             validate_calls w1 @
               (if sint (FirstLedger (Cursor is)) \<le> sint (LastLedger (Cursor is)) \<and>
                   FirstLedger (Cursor is) \<noteq> CoreElder ls2
                then [FirstLedger (Cursor is)] else [])"
    by (simp only: recovered_simps runOnce_body_validate_calls) simp
  have gap: "is' = is
              \<and> run_calls (recovered (fst ?b) (snd (snd ?b))) = run_calls w1
              \<and> sentry (recovered (fst ?b) (snd (snd ?b))) = sentry w1
              \<and> logs (recovered (fst ?b) (snd (snd ?b))) =
                  logs w1 @ (if HistoryLatest ls2 = 0
                             then [LogHistoryEmpty (FirstLedger (Cursor is))] else [])
                          @ [LogLedgerGap (FirstLedger (Cursor is)) err]
              \<and> current i = None \<and> \<not> locked i"
    if "sint (FirstLedger (Cursor is)) \<le> sint (LastLedger (Cursor is))"
      and "FirstLedger (Cursor is) \<noteq> CoreElder ls2"
      and "fst (validateLedgerChain E (FirstLedger (Cursor is)) (w1\<lparr>store := s2\<rparr>))
             = Returns (Some err)"
    for err
    using runOnce_body_gap [OF that] is' assms(1,2)
    by (simp add: recovered_simps runOnce_body_sentry)
  show ?thesis
    using t vc gap
    by (intro exI [of _ is'] exI [of _ i] exI [of _ "recovered (fst ?b) (snd (snd ?b))"]) blast
qed

theorem chain_validation_gates_the_run_witness:
  "\<not> locked idle \<and> current idle = None
   \<and> newTickSession demo_env (demo_world gap_store)
       = (Returns (NewSession 101 105),
          demo_world (gap_store\<lparr>ledger_reads :=
            [Returns \<lparr>CoreElder = 1, CoreLatest = 105, HistoryLatest = 100\<rparr>]\<rparr>))
   \<and> CurrentState demo_env
         (store (demo_world (gap_store\<lparr>ledger_reads :=
            [Returns \<lparr>CoreElder = 1, CoreLatest = 105, HistoryLatest = 100\<rparr>]\<rparr>)))
       = (Returns \<lparr>CoreElder = 1, CoreLatest = 105, HistoryLatest = 100\<rparr>,
          gap_store\<lparr>ledger_reads := []\<rparr>)
   \<and> sint (FirstLedger (Cursor (NewSession 101 105))) \<le> sint (LastLedger (Cursor (NewSession 101 105)))
   \<and> FirstLedger (Cursor (NewSession 101 105))
       \<noteq> CoreElder \<lparr>CoreElder = 1, CoreLatest = 105, HistoryLatest = 100\<rparr>
   \<and> fst (validateLedgerChain demo_env (FirstLedger (Cursor (NewSession 101 105)))
            (demo_world (gap_store\<lparr>ledger_reads := []\<rparr>)))
       = Returns (Some (New ''cur and prev ledger hashes don't match''))
   \<and> map_option fst (Tick demo_env idle (demo_world gap_store))
       = Some (Returns (Some (NewSession 101 105)))
   \<and> map_option (fst \<circ> snd) (Tick demo_env idle (demo_world gap_store)) = Some idle
   \<and> map_option (validate_calls \<circ> snd \<circ> snd) (Tick demo_env idle (demo_world gap_store))
       = Some [101]
   \<and> map_option (run_calls \<circ> snd \<circ> snd) (Tick demo_env idle (demo_world gap_store)) = Some []
   \<and> map_option (logs \<circ> snd \<circ> snd) (Tick demo_env idle (demo_world gap_store))
       = Some [LogLedgerGap 101 (New ''cur and prev ledger hashes don't match'')]"
  using chain_validation_gates_the_run [of idle demo_env "demo_world gap_store"
          "NewSession 101 105"
          "demo_world (gap_store\<lparr>ledger_reads :=
            [Returns \<lparr>CoreElder = 1, CoreLatest = 105, HistoryLatest = 100\<rparr>]\<rparr>)"
          "\<lparr>CoreElder = 1, CoreLatest = 105, HistoryLatest = 100\<rparr>"
          "gap_store\<lparr>ledger_reads := []\<rparr>"]
  by (simp add: demo_defs tick_defs gap_store_def)

text \<open>
  The claim as it stands has the validator invoked whenever the start differs from
  \<open>CoreElder\<close>. With history caught up (\<open>HistoryLatest = CoreLatest = 100\<close>) the start is
  101, which differs from \<open>CoreElder = 1\<close>, but the range \<open>[101, 100]\<close> is empty and
  \<open>runOnce\<close> returns before the validation.
\<close>

theorem validation_skipped_on_empty_range_counterexample:
  "newTickSession demo_env (demo_world caught_up_store)
     = (Returns (NewSession 101 100),
        demo_world (caught_up_store\<lparr>ledger_reads :=
          [Returns \<lparr>CoreElder = 1, CoreLatest = 100, HistoryLatest = 100\<rparr>]\<rparr>))
   \<and> CurrentState demo_env
         (caught_up_store\<lparr>ledger_reads :=
            [Returns \<lparr>CoreElder = 1, CoreLatest = 100, HistoryLatest = 100\<rparr>]\<rparr>)
       = (Returns \<lparr>CoreElder = 1, CoreLatest = 100, HistoryLatest = 100\<rparr>,
          caught_up_store\<lparr>ledger_reads := []\<rparr>)
   \<and> FirstLedger (Cursor (NewSession 101 100))
       \<noteq> CoreElder \<lparr>CoreElder = 1, CoreLatest = 100, HistoryLatest = 100\<rparr>
   \<and> map_option fst (Tick demo_env idle (demo_world caught_up_store))
       = Some (Returns (Some (NewSession 101 100)))
   \<and> map_option (validate_calls \<circ> snd \<circ> snd) (Tick demo_env idle (demo_world caught_up_store))
       = Some []"
  by (simp add: demo_defs tick_defs caught_up_store_def)

subsection \<open>What Tick returns when the run is skipped\<close>

text \<open>
  C10. When \<open>Tick\<close> finds the lock and the slot free and builds the session \<open>is\<close>, it
  returns a non-nil session, whatever happens in \<open>runOnce\<close>. The session as built has
  \<open>Err\<close> nil and \<open>Ingested\<close> 0. When the range is empty, and when the chain validation
  fails, \<open>Session.Run\<close> is not invoked and the session returned is \<open>is\<close> itself. A run
  that is executed, ingests nothing and fails with nothing (\<open>Run\<close> returns and leaves the
  session as it was) makes \<open>Tick\<close> return that same value.
\<close>

theorem Tick_returns_session_when_skipped:
  assumes "\<not> locked i" and "current i = None"
    and "newTickSession E w = (Returns is, w1)"
  shows "\<exists>is' i' w'.
           Tick E i w = Some (Returns (Some is'), i', w')
         \<and> Err is = None \<and> Ingested is = 0
         \<and> (\<forall>ls2 s2.
               CurrentState E (store w1) = (Returns ls2, s2) \<and>
               sint (LastLedger (Cursor is)) < sint (FirstLedger (Cursor is)) \<longrightarrow>
               is' = is \<and> run_calls w' = run_calls w1)
         \<and> (\<forall>ls2 s2 err.
               CurrentState E (store w1) = (Returns ls2, s2) \<and>
               sint (FirstLedger (Cursor is)) \<le> sint (LastLedger (Cursor is)) \<and>
               FirstLedger (Cursor is) \<noteq> CoreElder ls2 \<and>
               fst (validateLedgerChain E (FirstLedger (Cursor is)) (w1\<lparr>store := s2\<rparr>))
                 = Returns (Some err) \<longrightarrow>
               is' = is \<and> run_calls w' = run_calls w1)
         \<and> (\<forall>ls2 s2 s3.
               CurrentState E (store w1) = (Returns ls2, s2) \<and>
               sint (FirstLedger (Cursor is)) \<le> sint (LastLedger (Cursor is)) \<and>
               FirstLedger (Cursor is) = CoreElder ls2 \<and>
               Run E is s2 = (Returns (), is, s3) \<longrightarrow>
               is' = is \<and> run_calls w' = run_calls w1 @ [is])"
proof (cases "CurrentState E (store w1)")
  case (Pair r s2)
  note fr = newTickSession_frame [OF assms(3)]
  show ?thesis
  proof (cases r)
    case (Returns ls2)
    let ?b = "runOnce_body E ls2 (Some is) (w1\<lparr>store := s2\<rparr>)"
    let ?w' = "recovered (fst ?b) (snd (snd ?b))"
    have rd: "CurrentState E (store w1) = (Returns ls2, s2)"
      using Pair Returns by simp
    obtain is' where is': "fst (snd ?b) = Some is'"
      using runOnce_body_Some [of E ls2 "is" "w1\<lparr>store := s2\<rparr>"] by auto
    have t: "Tick E i w = Some (Returns (Some is'), i, ?w')"
      using Tick_runs [OF assms rd] is' by simp
    have empty: "is' = is \<and> run_calls ?w' = run_calls w1"
      if "sint (LastLedger (Cursor is)) < sint (FirstLedger (Cursor is))"
      using runOnce_body_empty_range [OF that, of E ls2 "w1\<lparr>store := s2\<rparr>"] is'
      by (simp add: recovered_simps)
    have gap: "is' = is \<and> run_calls ?w' = run_calls w1"
      if "sint (FirstLedger (Cursor is)) \<le> sint (LastLedger (Cursor is))"
        and "FirstLedger (Cursor is) \<noteq> CoreElder ls2"
        and "fst (validateLedgerChain E (FirstLedger (Cursor is)) (w1\<lparr>store := s2\<rparr>))
               = Returns (Some err)"
      for err
      using runOnce_body_gap [OF that] is' by (simp add: recovered_simps)
    have quiet: "is' = is \<and> run_calls ?w' = run_calls w1 @ [is]"
      if "sint (FirstLedger (Cursor is)) \<le> sint (LastLedger (Cursor is))"
        and "FirstLedger (Cursor is) = CoreElder ls2"
        and "Run E is s2 = (Returns (), is, s3)"
      for s3
      using runOnce_body_quiet_run [of "is" ls2 E "w1\<lparr>store := s2\<rparr>" s3] that fr(6) is'
      by (simp add: recovered_simps)
    show ?thesis
      using t rd fr(6,7) empty gap quiet
      by (intro exI [of _ is'] exI [of _ i] exI [of _ ?w']) auto
  next
    case (Panics p)
    have rd: "CurrentState E (store w1) = (Panics p, s2)"
      using Pair Panics by simp
    show ?thesis
      using Tick_read_panics [OF assms rd] rd fr(6,7)
      by (intro exI [of _ "is"] exI [of _ "i\<lparr>current := Some is\<rparr>"]
            exI [of _ "recovered (Panics p) (w1\<lparr>store := s2\<rparr>)"]) simp
  qed
qed

theorem Tick_returns_session_when_skipped_witness:
  "\<not> locked idle \<and> current idle = None
   \<and> newTickSession demo_env (demo_world caught_up_store)
       = (Returns (NewSession 101 100),
          demo_world (caught_up_store\<lparr>ledger_reads :=
            [Returns \<lparr>CoreElder = 1, CoreLatest = 100, HistoryLatest = 100\<rparr>]\<rparr>))
   \<and> CurrentState demo_env
         (store (demo_world (caught_up_store\<lparr>ledger_reads :=
            [Returns \<lparr>CoreElder = 1, CoreLatest = 100, HistoryLatest = 100\<rparr>]\<rparr>)))
       = (Returns \<lparr>CoreElder = 1, CoreLatest = 100, HistoryLatest = 100\<rparr>,
          caught_up_store\<lparr>ledger_reads := []\<rparr>)
   \<and> sint (LastLedger (Cursor (NewSession 101 100))) < sint (FirstLedger (Cursor (NewSession 101 100)))
   \<and> map_option fst (Tick demo_env idle (demo_world caught_up_store))
       = Some (Returns (Some (NewSession 101 100)))
   \<and> map_option (run_calls \<circ> snd \<circ> snd) (Tick demo_env idle (demo_world caught_up_store))
       = Some []
   \<and> Err (NewSession 101 100) = None \<and> Ingested (NewSession 101 100) = 0"
  using Tick_returns_session_when_skipped [of idle demo_env "demo_world caught_up_store"
          "NewSession 101 100"
          "demo_world (caught_up_store\<lparr>ledger_reads :=
            [Returns \<lparr>CoreElder = 1, CoreLatest = 100, HistoryLatest = 100\<rparr>]\<rparr>)"]
  by (simp add: demo_defs tick_defs caught_up_store_def)

subsection \<open>The runs of an ascending list\<close>

lemma sint_succ_of_less:
  fixes x e :: int32
  assumes "x = e + 1" and "sint e < sint x"
  shows "sint x = sint e + 1"
proof (cases "sint e < 2147483647")
  case True
  then show ?thesis using assms(1) by (simp add: sint_succ)
next
  case False
  have "sint x < 2 ^ 31" using sint_less [of x] by simp
  then show ?thesis using False assms(2) by simp
qed

lemma span_single: "span (x, x) = [x]"
  by (simp add: span_def)

lemma span_snoc:
  assumes "sint s \<le> sint e" and "x = e + 1" and "sint e < sint x"
  shows "span (s, x) = span (s, e) @ [x]"
proof -
  have sx: "sint x = sint e + 1" using assms(2,3) by (rule sint_succ_of_less)
  have "[sint s..sint x] = [sint s..sint e] @ [sint x]"
    using assms(1) sx upto_rec2 [of "sint s" "sint x"] by simp
  then show ?thesis by (simp add: span_def)
qed

lemma ascending_Cons2:
  "ascending (e # x # xs) \<Longrightarrow> sint e < sint x \<and> ascending (x # xs)"
  by (simp add: ascending_def)

lemma extend_run_cover:
  assumes "ascending (e # xs)" and "sint s \<le> sint e"
  shows "concat (map span (extend_run s e xs)) = span (s, e) @ xs"
  using assms
proof (induction xs arbitrary: s e)
  case Nil
  then show ?case by simp
next
  case (Cons x xs)
  have lt: "sint e < sint x" and asc: "ascending (x # xs)"
    using Cons.prems(1) ascending_Cons2 by blast+
  show ?case
  proof (cases "x = e + 1")
    case True
    have "concat (map span (extend_run s x xs)) = span (s, x) @ xs"
      using Cons.IH [OF asc] Cons.prems(2) lt by simp
    then show ?thesis
      using True span_snoc [OF Cons.prems(2) True lt] by simp
  next
    case False
    have "concat (map span (extend_run x x xs)) = span (x, x) @ xs"
      using Cons.IH [OF asc] by simp
    then show ?thesis
      using False by (simp add: span_single)
  qed
qed

lemma extend_run_ordered:
  assumes "ascending (e # xs)" and "sint s \<le> sint e"
  shows "\<forall>r \<in> set (extend_run s e xs). sint (fst r) \<le> sint (snd r) \<and> (fst r = s \<or> fst r \<in> set xs)"
  using assms
proof (induction xs arbitrary: s e)
  case Nil
  then show ?case by simp
next
  case (Cons x xs)
  have lt: "sint e < sint x" and asc: "ascending (x # xs)"
    using Cons.prems(1) ascending_Cons2 by blast+
  show ?case
  proof (cases "x = e + 1")
    case True
    have "sint s \<le> sint x" using Cons.prems(2) lt by simp
    from Cons.IH [OF asc this] show ?thesis
      using True by auto
  next
    case False
    from Cons.IH [OF asc, of x] show ?thesis
      using False Cons.prems(2) by auto
  qed
qed

lemma extend_run_head: "\<exists>e' rs. extend_run s e xs = (s, e') # rs"
  by (induction xs arbitrary: e) auto

lemma extend_run_gapped: "gapped (extend_run s e xs)"
proof (induction xs arbitrary: s e)
  case Nil
  then show ?case by simp
next
  case (Cons x xs)
  obtain e' rs where h: "extend_run x x xs = (x, e') # rs"
    using extend_run_head by blast
  show ?case
  proof (cases "x = e + 1")
    case True
    then show ?thesis using Cons.IH [of s x] by simp
  next
    case False
    then show ?thesis using Cons.IH [of x x] h by simp
  qed
qed

lemma extend_run_length: "length (extend_run s e xs) = Suc (breaks (e # xs))"
  by (induction xs arbitrary: s e) auto

lemma breaks_append_le: "breaks (xs @ ys) \<le> breaks xs + breaks ys + 1"
proof (induction xs)
  case Nil
  then show ?case by simp
next
  case (Cons a xs)
  show ?case
  proof (cases xs)
    case Nil
    then show ?thesis by (cases ys) simp_all
  next
    case (Cons b xs')
    then show ?thesis using Cons.IH by simp
  qed
qed

lemma breaks_upto: "breaks (map word_of_int [i..j]) = 0"
proof (induction "nat (j - i + 1)" arbitrary: i)
  case 0
  then show ?case by simp
next
  case (Suc k)
  then have ij: "i \<le> j" by simp
  have k: "k = nat (j - (i + 1) + 1)" using Suc.hyps(2) by simp
  have unf: "[i..j] = i # [i + 1..j]" using ij by (simp add: upto_rec1)
  show ?case
  proof (cases "i + 1 \<le> j")
    case True
    then have "[i + 1..j] = (i + 1) # [i + 1 + 1..j]" by (simp add: upto_rec1)
    then show ?thesis
      using Suc.hyps(1) [OF k] unf by simp
  next
    case False
    then show ?thesis using unf by simp
  qed
qed

lemma breaks_span: "breaks (span r) = 0"
  by (simp add: span_def breaks_upto)

lemma breaks_concat_spans:
  "concat (map span rs) \<noteq> [] \<Longrightarrow> Suc (breaks (concat (map span rs))) \<le> length rs"
proof (induction rs)
  case Nil
  then show ?case by simp
next
  case (Cons r rs)
  show ?case
  proof (cases "concat (map span rs) = []")
    case True
    have "breaks (span r @ concat (map span rs)) = 0"
      by (simp only: True append_Nil2 breaks_span)
    then show ?thesis by simp
  next
    case False
    have "breaks (span r @ concat (map span rs)) \<le> breaks (concat (map span rs)) + 1"
      using breaks_append_le [of "span r" "concat (map span rs)"] by (simp add: breaks_span)
    then show ?thesis
      using Cons.IH [OF False] by simp
  qed
qed

lemma RangeCoalescer_minimal:
  assumes "concat (map span rs) = xs"
  shows "length (RangeCoalescer xs) \<le> length rs"
proof (cases xs)
  case Nil
  then show ?thesis by simp
next
  case (Cons x xs')
  have "Suc (breaks xs) \<le> length rs"
    using breaks_concat_spans [of rs] assms Cons by simp
  then show ?thesis
    using Cons by (simp add: extend_run_length)
qed

lemma RangeCoalescer_cover:
  assumes "ascending xs"
  shows "concat (map span (RangeCoalescer xs)) = xs"
proof (cases xs)
  case Nil
  then show ?thesis by simp
next
  case (Cons x xs')
  then show ?thesis
    using extend_run_cover [of x xs' x] assms by (simp add: span_single)
qed

lemma RangeCoalescer_gapped: "gapped (RangeCoalescer xs)"
  by (cases xs) (simp_all add: extend_run_gapped)

lemma RangeCoalescer_ordered:
  assumes "ascending xs"
  shows "\<forall>r \<in> set (RangeCoalescer xs). sint (fst r) \<le> sint (snd r) \<and> fst r \<in> set xs"
proof (cases xs)
  case Nil
  then show ?thesis by simp
next
  case (Cons x xs')
  then show ?thesis
    using extend_run_ordered [of x xs' x] assms by auto
qed

subsection \<open>One pass of ReingestOutdated\<close>

lemma flush_calls:
  "reingest_calls (snd (snd (snd (flush E start end n i w)))) = reingest_calls w @ [(start, end)]"
  by (simp add: flush_def ReingestRange_def Let_def split_beta Session_Run_frame
           split: outcome.splits option.splits)

lemma range_loop_calls:
  assumes "start \<noteq> 0" and "0 \<notin> set xs"
    and "range_loop E xs start end n i w = (r, (s', e'), n', i', w')"
  shows "(r = Returns None \<longrightarrow>
            reingest_calls w' @ [(s', e')] = reingest_calls w @ extend_run start end xs)
       \<and> (\<exists>k. reingest_calls w' = reingest_calls w @ take k (extend_run start end xs))"
  using assms
proof (induction xs arbitrary: start "end" n i w)
  case Nil
  then show ?case by (auto intro: exI [of _ 0])
next
  case (Cons x xs)
  have x0: "x \<noteq> 0" and xs0: "0 \<notin> set xs" using Cons.prems(2) by auto
  show ?case
  proof (cases "x = end + 1")
    case True
    then have "range_loop E xs start x n i w = (r, (s', e'), n', i', w')"
      using Cons.prems(1,3) by simp
    from Cons.IH [OF Cons.prems(1) xs0 this] show ?thesis
      using True by simp
  next
    case False
    obtain rf nf jf wf where f: "flush E start end n i w = (rf, nf, jf, wf)"
      by (cases "flush E start end n i w") auto
    have cf: "reingest_calls wf = reingest_calls w @ [(start, end)]"
      using flush_calls [of E start "end" n i w] f by simp
    show ?thesis
    proof (cases "rf = Returns None")
      case True
      then have "range_loop E xs x x nf jf wf = (r, (s', e'), n', i', w')"
        using Cons.prems(1,3) False f by simp
      from Cons.IH [OF x0 xs0 this] obtain k
        where full: "r = Returns None \<longrightarrow>
                reingest_calls w' @ [(s', e')] = reingest_calls wf @ extend_run x x xs"
          and pre: "reingest_calls w' = reingest_calls wf @ take k (extend_run x x xs)"
        by blast
      have "reingest_calls w' = reingest_calls w @ take (Suc k) (extend_run start end (x # xs))"
        using pre cf False by simp
      then show ?thesis
        using full cf False by (intro conjI exI [of _ "Suc k"]) simp_all
    next
      case stop: False
      then have res: "r = rf \<and> w' = wf"
        using Cons.prems(1,3) False f
        by (cases rf) (auto split: option.splits)
      have "reingest_calls w' = reingest_calls w @ take (Suc 0) (extend_run start end (x # xs))"
        using res cf False by simp
      then show ?thesis
        using res stop by (intro conjI exI [of _ "Suc 0"]) simp_all
    qed
  qed
qed

lemma drain_calls:
  assumes "0 \<notin> set (x # xs)" and "outdated = x # xs \<or> outdated = 0 # x # xs"
  shows "(fst (drain E lowest outdated n i w) = Returns None \<longrightarrow>
            reingest_calls (snd (snd (snd (drain E lowest outdated n i w))))
              = reingest_calls w @ RangeCoalescer (x # xs))
       \<and> (\<exists>k. reingest_calls (snd (snd (snd (drain E lowest outdated n i w))))
              = reingest_calls w @ take k (RangeCoalescer (x # xs)))"
proof -
  let ?w0 = "log_emit (LogOutdated lowest (length outdated)) w"
  obtain r s' e' n' i' w' where rl: "range_loop E xs x x n i ?w0 = (r, (s', e'), n', i', w')"
    by (cases "range_loop E xs x x n i ?w0") auto
  have x0: "x \<noteq> 0" and xs0: "0 \<notin> set xs" using assms(1) by auto
  have w0: "reingest_calls ?w0 = reingest_calls w" by (simp add: log_emit_def)
  note rc = range_loop_calls [OF x0 xs0 rl, unfolded w0]
  have full: "r = Returns None \<longrightarrow>
              reingest_calls w' @ [(s', e')] = reingest_calls w @ extend_run x x xs"
    using rc by (rule conjunct1)
  obtain k where pre: "reingest_calls w' = reingest_calls w @ take k (extend_run x x xs)"
    using rc by blast
  have rl0: "range_loop E outdated 0 0 n i ?w0 = (r, (s', e'), n', i', w')"
    using rl assms(2) by auto
  show ?thesis
  proof (cases "r = Returns None")
    case True
    have d: "drain E lowest outdated n i w = flush E s' e' n' i' w'"
      using rl0 True by (simp add: drain_def)
    have "reingest_calls (snd (snd (snd (drain E lowest outdated n i w))))
            = reingest_calls w @ extend_run x x xs"
      using full True flush_calls [of E s' e' n' i' w'] d by simp
    then show ?thesis
      by (intro conjI exI [of _ "length (extend_run x x xs)"]) simp_all
  next
    case False
    have d: "drain E lowest outdated n i w = (r, n', i', w')"
      using rl0 False by (cases r) (auto simp: drain_def split: option.splits)
    show ?thesis
      using d pre False by (intro conjI exI [of _ k]) simp_all
  qed
qed

lemma drain_zero_alone:
  "reingest_calls (snd (snd (snd (drain E lowest [0] n i w)))) = reingest_calls w @ [(0, 0)]"
  by (simp add: drain_def flush_calls log_emit_def)

lemma ascending_after_zero:
  assumes "ascending (0 # xs)"
  shows "ascending xs" and "\<forall>x \<in> set xs. 0 < sint x"
  using assms by (simp_all add: ascending_def)

lemmas drain_defs =
  drain_def flush_def ReingestRange_def Session_Run_def log_emit_def NewSession_def Let_def

text \<open>
  C4, amended. For every ascending list of sequence numbers without duplicates and without
  the number 0, one pass of \<open>ReingestOutdated\<close> on it calls \<open>ReingestRange\<close> on the runs
  of \<open>RangeCoalescer\<close>, in order: on all of them when the pass ends without error, and
  otherwise on the first of them up to the call that failed. These runs are the minimal
  list of maximal contiguous runs whose union is the input: their spans, one after the
  other, are the input list; each has \<open>start \<le> end\<close>; no run is continued by the next;
  and no list of ranges whose spans make up the input is shorter. On
  \<open>5, 6, 7, 10, 11, 15\<close> the calls are \<open>(5, 7)\<close>, \<open>(10, 11)\<close>, \<open>(15, 15)\<close>.
\<close>

theorem drain_coalesces_into_maximal_runs:
  assumes "ascending outdated" and "0 \<notin> set outdated" and "outdated = lowest # rest"
  shows "(fst (drain E lowest outdated n i w) = Returns None \<longrightarrow>
            reingest_calls (snd (snd (snd (drain E lowest outdated n i w))))
              = reingest_calls w @ RangeCoalescer outdated)
       \<and> (\<exists>k. reingest_calls (snd (snd (snd (drain E lowest outdated n i w))))
              = reingest_calls w @ take k (RangeCoalescer outdated))
       \<and> concat (map span (RangeCoalescer outdated)) = outdated
       \<and> (\<forall>r \<in> set (RangeCoalescer outdated). sint (fst r) \<le> sint (snd r))
       \<and> gapped (RangeCoalescer outdated)
       \<and> (\<forall>rs. concat (map span rs) = outdated \<longrightarrow>
              length (RangeCoalescer outdated) \<le> length rs)"
proof -
  have calls: "(fst (drain E lowest outdated n i w) = Returns None \<longrightarrow>
            reingest_calls (snd (snd (snd (drain E lowest outdated n i w))))
              = reingest_calls w @ RangeCoalescer outdated)
       \<and> (\<exists>k. reingest_calls (snd (snd (snd (drain E lowest outdated n i w))))
              = reingest_calls w @ take k (RangeCoalescer outdated))"
    using drain_calls [of lowest rest outdated E lowest n i w] assms(2,3) by simp
  have ord: "\<forall>r \<in> set (RangeCoalescer outdated). sint (fst r) \<le> sint (snd r)"
    using RangeCoalescer_ordered [OF assms(1)] by blast
  show ?thesis
    using calls ord RangeCoalescer_cover [OF assms(1)] RangeCoalescer_gapped [of outdated]
      RangeCoalescer_minimal [of _ outdated]
    by blast
qed

theorem drain_coalesces_into_maximal_runs_witness:
  "ascending [5, 6, 7, 10, 11, 15] \<and> 0 \<notin> set [5, 6, 7, 10, 11, 15 :: int32]
   \<and> fst (drain demo_env 5 [5, 6, 7, 10, 11, 15] 0 idle (demo_world quiet_store)) = Returns None
   \<and> reingest_calls (snd (snd (snd
        (drain demo_env 5 [5, 6, 7, 10, 11, 15] 0 idle (demo_world quiet_store)))))
       = [(5, 7), (10, 11), (15, 15)]
   \<and> RangeCoalescer [5, 6, 7, 10, 11, 15] = [(5, 7), (10, 11), (15, 15)]"
  using drain_coalesces_into_maximal_runs
          [of "[5, 6, 7, 10, 11, 15]" 5 "[6, 7, 10, 11, 15]" demo_env 0 idle "demo_world quiet_store"]
  by (simp add: ascending_def demo_defs drain_defs quiet_store_def)

text \<open>
  The claim as it stands is about every ascending list. On \<open>0, 1\<close> the scan opens a run at
  0, takes \<open>start = 0\<close> at the next element for "no run open" and opens the run again at
  1: the only call is \<open>ReingestRange 1 1\<close>, where the runs of the input are \<open>[(0, 1)]\<close>.
\<close>

theorem drain_drops_leading_zero_counterexample:
  "ascending [0, 1]
   \<and> fst (drain demo_env 0 [0, 1] 0 idle (demo_world quiet_store)) = Returns None
   \<and> reingest_calls (snd (snd (snd (drain demo_env 0 [0, 1] 0 idle (demo_world quiet_store)))))
       = [(1, 1)]
   \<and> RangeCoalescer [0, 1] = [(0, 1)]
   \<and> concat (map span [(1, 1)]) \<noteq> [0, 1]"
  by (simp add: ascending_def demo_defs drain_defs quiet_store_def span_def)

text \<open>
  C9, amended. The scan takes \<open>start = 0\<close> for "no run open": with \<open>start = 0\<close> the next
  element opens a run and nothing is flushed. So on an ascending list that begins with 0
  and goes on, the pass makes the calls it would make on the rest of the list (all of
  them when it ends without error), every one of them on a range that starts above 0:
  the number 0 is dropped. On the list that holds 0 alone, the final flush calls
  \<open>ReingestRange 0 0\<close>. On a list of numbers that are all at least 1, a pass that ends
  without error has called \<open>ReingestRange\<close> on exactly the runs of the list.
\<close>

theorem zero_is_the_open_run_sentinel:
  "range_loop E (seq # rest) 0 end n i w = range_loop E rest seq seq n i w
   \<and> (ascending (0 # x # xs) \<longrightarrow>
        (\<exists>k. reingest_calls (snd (snd (snd (drain E 0 (0 # x # xs) n i w))))
              = reingest_calls w @ take k (RangeCoalescer (x # xs)))
      \<and> (fst (drain E 0 (0 # x # xs) n i w) = Returns None \<longrightarrow>
            reingest_calls (snd (snd (snd (drain E 0 (0 # x # xs) n i w))))
              = reingest_calls w @ RangeCoalescer (x # xs))
      \<and> (\<forall>r \<in> set (RangeCoalescer (x # xs)). 0 < sint (fst r) \<and> sint (fst r) \<le> sint (snd r)))
   \<and> reingest_calls (snd (snd (snd (drain E 0 [0] n i w)))) = reingest_calls w @ [(0, 0)]
   \<and> ((\<forall>y \<in> set (x # xs). 1 \<le> sint y) \<and>
        fst (drain E x (x # xs) n i w) = Returns None \<longrightarrow>
        reingest_calls (snd (snd (snd (drain E x (x # xs) n i w))))
          = reingest_calls w @ RangeCoalescer (x # xs))"
proof -
  have sentinel: "range_loop E (seq # rest) 0 end n i w = range_loop E rest seq seq n i w"
    by simp
  have dropped:
    "(\<exists>k. reingest_calls (snd (snd (snd (drain E 0 (0 # x # xs) n i w))))
              = reingest_calls w @ take k (RangeCoalescer (x # xs)))
      \<and> (fst (drain E 0 (0 # x # xs) n i w) = Returns None \<longrightarrow>
            reingest_calls (snd (snd (snd (drain E 0 (0 # x # xs) n i w))))
              = reingest_calls w @ RangeCoalescer (x # xs))
      \<and> (\<forall>r \<in> set (RangeCoalescer (x # xs)). 0 < sint (fst r) \<and> sint (fst r) \<le> sint (snd r))"
    if asc: "ascending (0 # x # xs)"
  proof -
    note az = ascending_after_zero [OF asc]
    have nz: "0 \<notin> set (x # xs)" using az(2) by auto
    have pos: "\<forall>r \<in> set (RangeCoalescer (x # xs)). 0 < sint (fst r) \<and> sint (fst r) \<le> sint (snd r)"
      using RangeCoalescer_ordered [OF az(1)] az(2) by blast
    show ?thesis
      using drain_calls [OF nz, of "0 # x # xs" E 0 n i w] pos by blast
  qed
  have positive: "reingest_calls (snd (snd (snd (drain E x (x # xs) n i w))))
          = reingest_calls w @ RangeCoalescer (x # xs)"
    if "\<forall>y \<in> set (x # xs). 1 \<le> sint y" and "fst (drain E x (x # xs) n i w) = Returns None"
  proof -
    have nz: "0 \<notin> set (x # xs)" using that(1) by auto
    show ?thesis
      using drain_calls [OF nz, of "x # xs" E x n i w] that(2) by blast
  qed
  show ?thesis
    using sentinel dropped positive drain_zero_alone [of E 0 n i w] by blast
qed

theorem zero_is_the_open_run_sentinel_witness:
  "ascending [0, 1, 2, 5]
   \<and> fst (drain demo_env 0 [0, 1, 2, 5] 0 idle (demo_world quiet_store)) = Returns None
   \<and> reingest_calls (snd (snd (snd
        (drain demo_env 0 [0, 1, 2, 5] 0 idle (demo_world quiet_store)))))
       = [(1, 2), (5, 5)]
   \<and> RangeCoalescer [1, 2, 5] = [(1, 2), (5, 5)]"
  using zero_is_the_open_run_sentinel
          [of demo_env 0 "[1, 2, 5]" 0 0 idle "demo_world quiet_store" 1 "[2, 5]"]
  by (simp add: ascending_def demo_defs drain_defs quiet_store_def)

text \<open>
  The claim as it stands has 0 never included in a call when the list begins with 0. On
  the list \<open>[0]\<close> the loop ends with \<open>start = end = 0\<close> and the unconditional final flush
  calls \<open>ReingestRange 0 0\<close>: there the coalescing is right with a sequence number below 1.
\<close>

theorem zero_alone_is_flushed_counterexample:
  "fst (drain demo_env 0 [0] 0 idle (demo_world quiet_store)) = Returns None
   \<and> reingest_calls (snd (snd (snd (drain demo_env 0 [0] 0 idle (demo_world quiet_store)))))
       = [(0, 0)]
   \<and> concat (map span [(0, 0)]) = [0]"
  by (simp add: demo_defs drain_defs quiet_store_def span_def)

subsection \<open>The outer loop of ReingestOutdated\<close>

lemma loop_empty:
  assumes "OldestOutdatedLedgers E (CurrentVersion E) (store w) = (Returns (Inr []), s1)"
  shows "ReingestOutdated_loop E n i w = Some (Returns (n, None), i, w\<lparr>store := s1\<rparr>)"
  using assms by (subst ReingestOutdated_loop.simps) (simp add: call_def)

lemma loop_step:
  assumes "OldestOutdatedLedgers E (CurrentVersion E) (store w) = (Returns (Inr (lowest # rest)), s1)"
    and "drain E lowest (lowest # rest) n i (w\<lparr>store := s1\<rparr>) = (Returns None, n', i', w')"
  shows "ReingestOutdated_loop E n i w = ReingestOutdated_loop E n' i' w'"
  using assms by (subst ReingestOutdated_loop.simps) (simp add: call_def)

lemma passes_then_empty:
  assumes "drain_passes E k n i w = Some (n', i', w')"
    and "OldestOutdatedLedgers E (CurrentVersion E) (store w') = (Returns (Inr []), s')"
  shows "ReingestOutdated_loop E n i w = Some (Returns (n', None), i', w'\<lparr>store := s'\<rparr>)"
  using assms
proof (induction k arbitrary: n i w)
  case 0
  then show ?case by (simp add: loop_empty)
next
  case (Suc k)
  obtain r w1 where q: "call (OldestOutdatedLedgers E (CurrentVersion E)) w = (r, w1)"
    by (cases "call (OldestOutdatedLedgers E (CurrentVersion E)) w") auto
  from Suc.prems(1) q obtain lowest rest where r: "r = Returns (Inr (lowest # rest))"
    by (auto split: outcome.splits sum.splits list.splits)
  obtain rd n1 i1 w2 where d: "drain E lowest (lowest # rest) n i w1 = (rd, n1, i1, w2)"
    by (cases "drain E lowest (lowest # rest) n i w1") auto
  from Suc.prems(1) q r d have rd: "rd = Returns None"
    by (auto split: outcome.splits option.splits)
  have next_pass: "drain_passes E k n1 i1 w2 = Some (n', i', w')"
    using Suc.prems(1) q r d rd by simp
  have q': "OldestOutdatedLedgers E (CurrentVersion E) (store w)
              = (Returns (Inr (lowest # rest)), store w1)"
    and w1: "w1 = w\<lparr>store := store w1\<rparr>"
    using q r by (auto simp: call_def split: prod.splits)
  have "ReingestOutdated_loop E n i w = ReingestOutdated_loop E n1 i1 w2"
    using loop_step [OF q', of n i n1 i1 w2] d rd w1 by simp
  then show ?case
    using Suc.IH [OF next_pass Suc.prems(2)] by simp
qed

text \<open>
  C7. \<open>ReingestOutdated\<close> is its loop entered with \<open>n = 0\<close>. When the query returns the
  empty list the loop returns \<open>n\<close> and a nil error. A pass on a non-empty result that ends
  without error is followed by the loop again, from the count and the world that pass
  left. Hence after any number of such passes an empty query result ends the call, with
  the count accumulated by the passes and a nil error. In particular, when the query
  returns \<open>3, 4, 5\<close>, \<open>Run\<close> on the session for \<open>[3, 5]\<close> returns without error, and the
  query then returns the empty list, \<open>ReingestOutdated\<close> returns that session's
  \<open>Ingested\<close> and nil, having made the one call \<open>ReingestRange 3 5\<close>.
\<close>

theorem ReingestOutdated_drains_until_empty:
  "(\<forall>s1. OldestOutdatedLedgers E (CurrentVersion E) (store w) = (Returns (Inr []), s1) \<longrightarrow>
        ReingestOutdated_loop E n i w = Some (Returns (n, None), i, w\<lparr>store := s1\<rparr>))
   \<and> (\<forall>lowest rest s1 n' i' w'.
        OldestOutdatedLedgers E (CurrentVersion E) (store w)
          = (Returns (Inr (lowest # rest)), s1) \<and>
        drain E lowest (lowest # rest) n i (w\<lparr>store := s1\<rparr>) = (Returns None, n', i', w') \<longrightarrow>
        ReingestOutdated_loop E n i w = ReingestOutdated_loop E n' i' w')
   \<and> (\<forall>k n' i' w' s'.
        drain_passes E k n i w = Some (n', i', w') \<and>
        OldestOutdatedLedgers E (CurrentVersion E) (store w') = (Returns (Inr []), s') \<longrightarrow>
        ReingestOutdated_loop E n i w = Some (Returns (n', None), i', w'\<lparr>store := s'\<rparr>))
   \<and> (\<forall>s1 is' s2 s3.
        OldestOutdatedLedgers E (CurrentVersion E) (store w) = (Returns (Inr [3, 4, 5]), s1) \<and>
        Run E ((NewSession 3 5)\<lparr>ClearExisting := True\<rparr>) s1 = (Returns (), is', s2) \<and>
        Err is' = None \<and>
        OldestOutdatedLedgers E (CurrentVersion E) s2 = (Returns (Inr []), s3) \<longrightarrow>
        (\<exists>w'. ReingestOutdated E i w = Some (Returns (Ingested is', None), i, w')
            \<and> reingest_calls w' = reingest_calls w @ [(3, 5)]))"
proof -
  have example:
    "\<exists>w'. ReingestOutdated E i w = Some (Returns (Ingested is', None), i, w')
            \<and> reingest_calls w' = reingest_calls w @ [(3, 5)]"
    if q1: "OldestOutdatedLedgers E (CurrentVersion E) (store w) = (Returns (Inr [3, 4, 5]), s1)"
      and run: "Run E ((NewSession 3 5)\<lparr>ClearExisting := True\<rparr>) s1 = (Returns (), is', s2)"
      and ok: "Err is' = None"
      and q2: "OldestOutdatedLedgers E (CurrentVersion E) s2 = (Returns (Inr []), s3)"
    for s1 is' s2 s3
  proof -
    let ?w1 = "w\<lparr>store := s1\<rparr>"
    let ?w2 = "w\<lparr>store := s2,
                 logs := logs w @ [LogOutdated 3 3],
                 reingest_calls := reingest_calls w @ [(3, 5)],
                 run_calls := run_calls w @ [(NewSession 3 5)\<lparr>ClearExisting := True\<rparr>]\<rparr>"
    have d: "drain E 3 [3, 4, 5] 0 i ?w1 = (Returns None, Ingested is', i, ?w2)"
      using run ok
      by (simp add: drain_def flush_def ReingestRange_def Session_Run_def log_emit_def Let_def)
    have "ReingestOutdated_loop E 0 i w = ReingestOutdated_loop E (Ingested is') i ?w2"
      using loop_step [OF q1 d] .
    moreover have "ReingestOutdated_loop E (Ingested is') i ?w2
                     = Some (Returns (Ingested is', None), i, ?w2\<lparr>store := s3\<rparr>)"
      using q2 by (intro loop_empty) simp
    ultimately show ?thesis
      by (simp add: ReingestOutdated_def)
  qed
  show ?thesis
    using loop_empty [of E w _ n i] loop_step [of E w _ _ _ n i] passes_then_empty [of E _ n i w]
      example
    by blast
qed

theorem ReingestOutdated_drains_until_empty_witness:
  "OldestOutdatedLedgers demo_env (CurrentVersion demo_env) (store (demo_world backlog_store))
     = (Returns (Inr [3, 4, 5]), backlog_store\<lparr>outdated_results := [Returns (Inr [])]\<rparr>)
   \<and> Run demo_env ((NewSession 3 5)\<lparr>ClearExisting := True\<rparr>)
        (backlog_store\<lparr>outdated_results := [Returns (Inr [])]\<rparr>)
     = (Returns (), (NewSession 3 5)\<lparr>ClearExisting := True, Ingested := 3\<rparr>,
        backlog_store\<lparr>outdated_results := [Returns (Inr [])], run_results := []\<rparr>)
   \<and> OldestOutdatedLedgers demo_env (CurrentVersion demo_env)
        (backlog_store\<lparr>outdated_results := [Returns (Inr [])], run_results := []\<rparr>)
     = (Returns (Inr []), backlog_store\<lparr>outdated_results := [], run_results := []\<rparr>)
   \<and> map_option fst (ReingestOutdated demo_env idle (demo_world backlog_store))
     = Some (Returns (3, None))
   \<and> map_option (reingest_calls \<circ> snd \<circ> snd)
        (ReingestOutdated demo_env idle (demo_world backlog_store))
     = Some [(3, 5)]"
proof -
  have q1: "OldestOutdatedLedgers demo_env (CurrentVersion demo_env) (store (demo_world backlog_store))
     = (Returns (Inr [3, 4, 5]), backlog_store\<lparr>outdated_results := [Returns (Inr [])]\<rparr>)"
    by (simp add: demo_defs backlog_store_def)
  have run: "Run demo_env ((NewSession 3 5)\<lparr>ClearExisting := True\<rparr>)
        (backlog_store\<lparr>outdated_results := [Returns (Inr [])]\<rparr>)
     = (Returns (), (NewSession 3 5)\<lparr>ClearExisting := True, Ingested := 3\<rparr>,
        backlog_store\<lparr>outdated_results := [Returns (Inr [])], run_results := []\<rparr>)"
    by (simp add: demo_defs backlog_store_def NewSession_def)
  have q2: "OldestOutdatedLedgers demo_env (CurrentVersion demo_env)
        (backlog_store\<lparr>outdated_results := [Returns (Inr [])], run_results := []\<rparr>)
     = (Returns (Inr []), backlog_store\<lparr>outdated_results := [], run_results := []\<rparr>)"
    by (simp add: demo_defs backlog_store_def)
  have ok: "Err ((NewSession 3 5)\<lparr>ClearExisting := True, Ingested := 3\<rparr>) = None"
    by (simp add: NewSession_def)
  obtain w' where
    "ReingestOutdated demo_env idle (demo_world backlog_store)
       = Some (Returns (Ingested ((NewSession 3 5)\<lparr>ClearExisting := True, Ingested := 3\<rparr>), None),
               idle, w')"
    and "reingest_calls w' = reingest_calls (demo_world backlog_store) @ [(3, 5)]"
    using ReingestOutdated_drains_until_empty
            [of demo_env "demo_world backlog_store" 0 idle] q1 run q2 ok
    by blast
  then show ?thesis
    using q1 run q2 by (simp add: demo_world_def)
qed

subsection \<open>The slot under concurrent ticks\<close>

lemma slot_invariant_init:
  "slot_invariant (\<lambda>t. Idling, \<lparr>current = None, locked = False\<rparr>)"
  by (simp add: slot_invariant_def)

lemma slot_invariantI:
  assumes "\<And>u. holds_lock (pcs u) \<Longrightarrow> locked i"
    and "\<And>u v. holds_lock (pcs u) \<Longrightarrow> holds_lock (pcs v) \<Longrightarrow> u = v"
    and "\<And>u s. installed (pcs u) = Some s \<Longrightarrow> current i = Some s"
    and "\<And>u v. installed (pcs u) \<noteq> None \<Longrightarrow> installed (pcs v) \<noteq> None \<Longrightarrow> u = v"
    and "\<And>u. building (pcs u) \<Longrightarrow> current i = None"
  shows "slot_invariant (pcs, i)"
proof -
  have 1: "\<forall>t. holds_lock (pcs t) \<longrightarrow> locked i" using assms(1) by blast
  have 2: "\<forall>t t'. holds_lock (pcs t) \<and> holds_lock (pcs t') \<longrightarrow> t = t'" using assms(2) by blast
  have 3: "\<forall>t is. installed (pcs t) = Some is \<longrightarrow> current i = Some is" using assms(3) by blast
  have 4: "\<forall>t t'. installed (pcs t) \<noteq> None \<and> installed (pcs t') \<noteq> None \<longrightarrow> t = t'"
    using assms(4) by blast
  have 5: "\<forall>t. building (pcs t) \<longrightarrow> current i = None" using assms(5) by blast
  show ?thesis
    unfolding slot_invariant_def prod.case using 1 2 3 4 5 by (intro conjI)
qed

lemma slot_invariantD:
  assumes "slot_invariant (pcs, i)"
  shows "holds_lock (pcs u) \<Longrightarrow> locked i"
    and "holds_lock (pcs u) \<Longrightarrow> holds_lock (pcs v) \<Longrightarrow> u = v"
    and "installed (pcs u) = Some s \<Longrightarrow> current i = Some s"
    and "installed (pcs u) \<noteq> None \<Longrightarrow> installed (pcs v) \<noteq> None \<Longrightarrow> u = v"
    and "building (pcs u) \<Longrightarrow> current i = None"
proof -
  from assms have all:
    "(\<forall>t. holds_lock (pcs t) \<longrightarrow> locked i)
      \<and> (\<forall>t t'. holds_lock (pcs t) \<and> holds_lock (pcs t') \<longrightarrow> t = t')
      \<and> (\<forall>t is. installed (pcs t) = Some is \<longrightarrow> current i = Some is)
      \<and> (\<forall>t t'. installed (pcs t) \<noteq> None \<and> installed (pcs t') \<noteq> None \<longrightarrow> t = t')
      \<and> (\<forall>t. building (pcs t) \<longrightarrow> current i = None)"
    unfolding slot_invariant_def prod.case .
  show "holds_lock (pcs u) \<Longrightarrow> locked i" using all by blast
  show "holds_lock (pcs u) \<Longrightarrow> holds_lock (pcs v) \<Longrightarrow> u = v" using all by blast
  show "installed (pcs u) = Some s \<Longrightarrow> current i = Some s" using all by blast
  show "installed (pcs u) \<noteq> None \<Longrightarrow> installed (pcs v) \<noteq> None \<Longrightarrow> u = v"
    using all by blast
  show "building (pcs u) \<Longrightarrow> current i = None" using all by blast
qed

lemma building_holds_lock: "building p \<Longrightarrow> holds_lock p"
  by (cases p) simp_all

text \<open>A move of one thread that touches neither the lock nor the slot.\<close>

lemma slot_invariant_move:
  assumes inv: "slot_invariant (pcs, i)"
    and h: "holds_lock p = holds_lock (pcs t)"
    and o: "installed p = installed (pcs t) \<or> installed p = None"
    and b: "building p \<Longrightarrow> current i = None"
  shows "slot_invariant (pcs(t := p), i)"
proof (rule slot_invariantI)
  note D = slot_invariantD [OF inv]
  show "locked i" if "holds_lock ((pcs(t := p)) u)" for u
    using that h D(1) [of u] D(1) [of t] by (cases "u = t") simp_all
  show "u = v" if "holds_lock ((pcs(t := p)) u)" "holds_lock ((pcs(t := p)) v)" for u v
    using that h D(2) [of u v] D(2) [of t v] D(2) [of u t]
    by (cases "u = t"; cases "v = t") simp_all
  show "current i = Some s" if "installed ((pcs(t := p)) u) = Some s" for u s
    using that o D(3) [of u s] D(3) [of t s] by (cases "u = t") auto
  show "u = v"
    if "installed ((pcs(t := p)) u) \<noteq> None" "installed ((pcs(t := p)) v) \<noteq> None" for u v
    using that o D(4) [of u v] D(4) [of t v] D(4) [of u t]
    by (cases "u = t"; cases "v = t") auto
  show "current i = None" if "building ((pcs(t := p)) u)" for u
    using that b D(5) [of u] by (cases "u = t") simp_all
qed

text \<open>Taking the free lock.\<close>

lemma slot_invariant_acquire:
  assumes inv: "slot_invariant (pcs, i)"
    and free: "\<not> locked i"
    and h: "holds_lock p"
    and o: "installed p = installed (pcs t)"
    and b: "\<not> building p"
  shows "slot_invariant (pcs(t := p), i\<lparr>locked := True\<rparr>)"
proof (rule slot_invariantI)
  note D = slot_invariantD [OF inv]
  have nobody: "\<not> holds_lock (pcs u)" for u using D(1) [of u] free by blast
  show "locked (i\<lparr>locked := True\<rparr>)" if "holds_lock ((pcs(t := p)) u)" for u
    by simp
  show "u = v" if "holds_lock ((pcs(t := p)) u)" "holds_lock ((pcs(t := p)) v)" for u v
    using that nobody [of u] nobody [of v] by (cases "u = t"; cases "v = t") simp_all
  show "current (i\<lparr>locked := True\<rparr>) = Some s" if "installed ((pcs(t := p)) u) = Some s" for u s
    using that o D(3) [of u s] D(3) [of t s] by (cases "u = t") simp_all
  show "u = v"
    if "installed ((pcs(t := p)) u) \<noteq> None" "installed ((pcs(t := p)) v) \<noteq> None" for u v
    using that o D(4) [of u v] D(4) [of t v] D(4) [of u t]
    by (cases "u = t"; cases "v = t") simp_all
  show "current (i\<lparr>locked := True\<rparr>) = None" if "building ((pcs(t := p)) u)" for u
    using that b D(5) [of u] by (cases "u = t") simp_all
qed

text \<open>Letting go of the lock.\<close>

lemma slot_invariant_let_go:
  assumes inv: "slot_invariant (pcs, i)"
    and h: "holds_lock (pcs t)" and h': "\<not> holds_lock p"
    and o: "installed p = installed (pcs t)"
  shows "slot_invariant (pcs(t := p), i\<lparr>locked := False\<rparr>)"
proof (rule slot_invariantI)
  note D = slot_invariantD [OF inv]
  have others: "\<not> holds_lock (pcs u)" if "u \<noteq> t" for u
    using D(2) [of u t] h that by blast
  have nb: "\<not> building p" using h' building_holds_lock by blast
  show "locked (i\<lparr>locked := False\<rparr>)" if "holds_lock ((pcs(t := p)) u)" for u
    using that h' others [of u] by (cases "u = t") simp_all
  show "u = v" if "holds_lock ((pcs(t := p)) u)" "holds_lock ((pcs(t := p)) v)" for u v
    using that h' others [of u] others [of v] by (cases "u = t"; cases "v = t") simp_all
  show "current (i\<lparr>locked := False\<rparr>) = Some s" if "installed ((pcs(t := p)) u) = Some s" for u s
    using that o D(3) [of u s] D(3) [of t s] by (cases "u = t") simp_all
  show "u = v"
    if "installed ((pcs(t := p)) u) \<noteq> None" "installed ((pcs(t := p)) v) \<noteq> None" for u v
    using that o D(4) [of u v] D(4) [of t v] D(4) [of u t]
    by (cases "u = t"; cases "v = t") simp_all
  show "current (i\<lparr>locked := False\<rparr>) = None" if "building ((pcs(t := p)) u)" for u
    using that nb D(5) [of u] by (cases "u = t") simp_all
qed


text \<open>Writing the slot: the installation and the release.\<close>

lemma slot_invariant_install:
  assumes inv: "slot_invariant (pcs, i)" and at: "pcs t = AtInstall is"
  shows "slot_invariant (pcs(t := AtUnlock is), i\<lparr>current := Some is\<rparr>)"
proof (rule slot_invariantI)
  note D = slot_invariantD [OF inv]
  have h: "holds_lock (pcs t)" and b: "building (pcs t)" using at by simp_all
  have empty: "current i = None" using D(5) [OF b] .
  have nobody: "installed (pcs u) = None" for u
    using D(3) [of u] empty by (cases "installed (pcs u)") simp_all
  have others: "\<not> holds_lock (pcs u)" if "u \<noteq> t" for u
    using D(2) [of u t] h that by blast
  show "locked (i\<lparr>current := Some is\<rparr>)" if "holds_lock ((pcs(t := AtUnlock is)) u)" for u
    using D(1) [OF h] by simp
  show "u = v"
    if "holds_lock ((pcs(t := AtUnlock is)) u)" "holds_lock ((pcs(t := AtUnlock is)) v)" for u v
    using that others [of u] others [of v] by (cases "u = t"; cases "v = t") simp_all
  show "current (i\<lparr>current := Some is\<rparr>) = Some s"
    if "installed ((pcs(t := AtUnlock is)) u) = Some s" for u s
    using that nobody [of u] by (cases "u = t") simp_all
  show "u = v"
    if "installed ((pcs(t := AtUnlock is)) u) \<noteq> None"
       "installed ((pcs(t := AtUnlock is)) v) \<noteq> None" for u v
    using that nobody [of u] nobody [of v] by (cases "u = t"; cases "v = t") simp_all
  show "current (i\<lparr>current := Some is\<rparr>) = None"
    if "building ((pcs(t := AtUnlock is)) u)" for u
    using that others [of u] building_holds_lock [of "pcs u"] by (cases "u = t") auto
qed

lemma slot_invariant_release:
  assumes inv: "slot_invariant (pcs, i)" and at: "pcs t = AtRelease is"
  shows "slot_invariant (pcs(t := AtReleaseUnlock is), i\<lparr>current := None\<rparr>)"
proof (rule slot_invariantI)
  note D = slot_invariantD [OF inv]
  have h: "holds_lock (pcs t)" and o: "installed (pcs t) \<noteq> None" using at by simp_all
  have nobody: "installed (pcs u) = None" if "u \<noteq> t" for u
    using D(4) [of u t] o that by blast
  have others: "\<not> holds_lock (pcs u)" if "u \<noteq> t" for u
    using D(2) [of u t] h that by blast
  show "locked (i\<lparr>current := None\<rparr>)" if "holds_lock ((pcs(t := AtReleaseUnlock is)) u)" for u
    using D(1) [OF h] by simp
  show "u = v"
    if "holds_lock ((pcs(t := AtReleaseUnlock is)) u)"
       "holds_lock ((pcs(t := AtReleaseUnlock is)) v)" for u v
    using that others [of u] others [of v] by (cases "u = t"; cases "v = t") simp_all
  show "current (i\<lparr>current := None\<rparr>) = Some s"
    if "installed ((pcs(t := AtReleaseUnlock is)) u) = Some s" for u s
    using that nobody [of u] by (cases "u = t") simp_all
  show "u = v"
    if "installed ((pcs(t := AtReleaseUnlock is)) u) \<noteq> None"
       "installed ((pcs(t := AtReleaseUnlock is)) v) \<noteq> None" for u v
    using that nobody [of u] nobody [of v] by (cases "u = t"; cases "v = t") simp_all
  show "current (i\<lparr>current := None\<rparr>) = None"
    if "building ((pcs(t := AtReleaseUnlock is)) u)" for u
    by simp
qed

lemma slot_invariant_step:
  assumes "tick_step c c'" and "slot_invariant c"
  shows "slot_invariant c'"
  using assms
proof (induction rule: tick_step.induct)
  case (enter pcs t i)
  then show ?case by (intro slot_invariant_move) simp_all
next
  case (lock pcs t i)
  then show ?case by (intro slot_invariant_acquire) simp_all
next
  case (busy pcs t i)
  then show ?case by (intro slot_invariant_move) simp_all
next
  case (busy_unlock pcs t i)
  then show ?case by (intro slot_invariant_let_go) simp_all
next
  case (free pcs t i)
  then show ?case by (intro slot_invariant_move) simp_all
next
  case (build pcs t i "is")
  have "current i = None"
    using slot_invariantD(5) [OF build(2), of t] build(1) by simp
  with build show ?case by (intro slot_invariant_move) simp_all
next
  case (build_panics pcs t i)
  then show ?case by (intro slot_invariant_move) simp_all
next
  case (install pcs t "is" i)
  then show ?case by (intro slot_invariant_install)
next
  case (unlock pcs t "is" i)
  then show ?case by (intro slot_invariant_let_go) simp_all
next
  case (read pcs t "is" i)
  then show ?case by (intro slot_invariant_move) simp_all
next
  case (read_panics pcs t "is" i)
  then show ?case by (intro slot_invariant_move) simp_all
next
  case (stash_lock pcs t "is" i)
  then show ?case by (intro slot_invariant_acquire) simp_all
next
  case (stash pcs t "is" i)
  then show ?case by (intro slot_invariant_move) simp_all
next
  case (stash_unlock pcs t "is" i)
  then show ?case by (intro slot_invariant_let_go) simp_all
next
  case (body pcs t "is" i)
  then show ?case by (intro slot_invariant_move) simp_all
next
  case (release_lock pcs t "is" i)
  then show ?case by (intro slot_invariant_acquire) simp_all
next
  case (release pcs t "is" i)
  then show ?case by (intro slot_invariant_release)
next
  case (release_unlock pcs t "is" i)
  then show ?case by (intro slot_invariant_let_go) simp_all
qed

lemma reachable_slot_invariant: "reachable c \<Longrightarrow> slot_invariant c"
proof (induction rule: reachable.induct)
  case init
  show ?case by (rule slot_invariant_init)
next
  case (step c c')
  then show ?case using slot_invariant_step by blast
qed


lemma Tick_busy:
  "\<not> locked i \<Longrightarrow> current i = Some s \<Longrightarrow>
   Tick E i w = Some (Returns None, i, log_emit LogAlreadyInProgress w)"
  by (simp add: Tick_def Unlock_Lock Unlock_after_Lock)


text \<open>
  C1. In every scheduler state whose \<open>current\<close> slot holds a session (and whose lock is
  free to take), \<open>Tick\<close> returns nil, installs nothing, logs "already in progress" and
  leaves the scheduler state as it was. Under any interleaving of callers of \<open>Tick\<close>: a
  caller between its test of \<open>current\<close> and its installation holds the lock, alone, and
  the slot is still empty (check and installation are one critical section); a caller
  between its installation and its release finds its own session in the slot; and no two
  callers are between installation and release at the same time.
\<close>

theorem Tick_already_in_progress:
  "(\<forall>s. \<not> locked i \<and> current i = Some s \<longrightarrow>
        Tick E i w = Some (Returns None, i, log_emit LogAlreadyInProgress w))
   \<and> (\<forall>pcs j. reachable (pcs, j) \<longrightarrow>
          (\<forall>t. building (pcs t) \<longrightarrow>
                 locked j \<and> current j = None \<and> (\<forall>t'. holds_lock (pcs t') \<longrightarrow> t' = t))
        \<and> (\<forall>t is. installed (pcs t) = Some is \<longrightarrow> current j = Some is)
        \<and> (\<forall>t t'. installed (pcs t) \<noteq> None \<and> installed (pcs t') \<noteq> None \<longrightarrow> t = t'))"
proof -
  have seq: "Tick E i w = Some (Returns None, i, log_emit LogAlreadyInProgress w)"
    if "\<not> locked i" and "current i = Some s" for s
    using that by (rule Tick_busy)
  have conc:
    "(\<forall>t. building (pcs t) \<longrightarrow>
                 locked j \<and> current j = None \<and> (\<forall>t'. holds_lock (pcs t') \<longrightarrow> t' = t))
        \<and> (\<forall>t is. installed (pcs t) = Some is \<longrightarrow> current j = Some is)
        \<and> (\<forall>t t'. installed (pcs t) \<noteq> None \<and> installed (pcs t') \<noteq> None \<longrightarrow> t = t')"
    if "reachable (pcs, j)" for pcs j
  proof -
    note D = slot_invariantD [OF reachable_slot_invariant [OF that]]
    have a: "locked j \<and> current j = None \<and> (\<forall>t'. holds_lock (pcs t') \<longrightarrow> t' = t)"
      if "building (pcs t)" for t
      using D(1) [of t] D(2) [of _ t] D(5) [of t] building_holds_lock [OF that] that by blast
    have b: "current j = Some is" if "installed (pcs t) = Some is" for t "is"
      using D(3) [OF that] .
    have c: "t = t'" if "installed (pcs t) \<noteq> None" "installed (pcs t') \<noteq> None" for t t'
      using D(4) [OF that] .
    show ?thesis using a b c by blast
  qed
  show ?thesis using seq conc by blast
qed

theorem Tick_already_in_progress_witness:
  "\<not> locked occupied \<and> current occupied = Some (NewSession 1 100)
   \<and> Tick demo_env occupied (demo_world first_tick_store)
       = Some (Returns None, occupied, log_emit LogAlreadyInProgress (demo_world first_tick_store))
   \<and> reachable ((\<lambda>t. Idling)(0 := AtUnlock (NewSession 1 100)), occupied\<lparr>locked := True\<rparr>)
   \<and> installed (((\<lambda>t. Idling)(0 := AtUnlock (NewSession 1 100))) 0) = Some (NewSession 1 100)
   \<and> current (occupied\<lparr>locked := True\<rparr>) = Some (NewSession 1 100)"
proof -
  let ?s = "NewSession 1 100"
  have r0: "reachable (\<lambda>t. Idling, idle)"
    unfolding idle_def by (rule reachable.init)
  have r1: "reachable ((\<lambda>t. Idling)(0 := AtLock), idle)"
    using reachable.step [OF r0 tick_step.enter [of "\<lambda>t. Idling" 0 idle]] by simp
  have r2: "reachable ((\<lambda>t. Idling)(0 := AtCheck), idle\<lparr>locked := True\<rparr>)"
    using reachable.step [OF r1 tick_step.lock [of _ 0]] by (simp add: idle_def)
  have r3: "reachable ((\<lambda>t. Idling)(0 := AtBuild), idle\<lparr>locked := True\<rparr>)"
    using reachable.step [OF r2 tick_step.free [of _ 0]] by (simp add: idle_def)
  have r4: "reachable ((\<lambda>t. Idling)(0 := AtInstall ?s), idle\<lparr>locked := True\<rparr>)"
    using reachable.step [OF r3 tick_step.build [of _ 0 _ ?s]] by simp
  have r5: "reachable ((\<lambda>t. Idling)(0 := AtUnlock ?s), idle\<lparr>locked := True, current := Some ?s\<rparr>)"
    using reachable.step [OF r4 tick_step.install [of _ 0 ?s]] by simp
  have r: "reachable ((\<lambda>t. Idling)(0 := AtUnlock ?s), occupied\<lparr>locked := True\<rparr>)"
    using r5 by (simp add: idle_def occupied_def)
  show ?thesis
    using r Tick_already_in_progress [of occupied demo_env "demo_world first_tick_store"]
    by (simp add: occupied_def)
qed

end
